theory Spec2Isabelle
  imports Complex_Main "HOL-Library.Multiset"
begin

section \<open>Numbers, points and operations\<close>

text \<open>
  A JavaScript number is an IEEE 754 double: \<open>NaN\<close>, one of the two infinities, or a
  finite double, given by its value as a real.  \<open>Math.min\<close>, \<open>Math.max\<close> and \<open><\<close> are
  exact on doubles; \<open>+\<close> rounds the exact sum to the nearest double, ties to the even
  significand, and overflows to an infinity.
\<close>

datatype jsnum = NaN | NegInfinity | Num real | Infinity

fun finite_num :: "jsnum \<Rightarrow> bool" where
  "finite_num (Num a) = True"
| "finite_num _ = False"

fun numOf :: "jsnum \<Rightarrow> real" where
  "numOf (Num a) = a"
| "numOf _ = 0"

text \<open>The integer nearest to \<open>q\<close>, the even one of the two when \<open>q\<close> lies halfway.\<close>

definition roundHalfEven :: "real \<Rightarrow> int" where
  "roundHalfEven q =
     (let f = \<lfloor>q\<rfloor>; d = q - of_int f
      in if d < 1/2 then f else if 1/2 < d then f + 1 else if even f then f else f + 1)"

text \<open>
  Rounding a real to binary64.  The spacing of the doubles around \<open>x\<close> is
  \<open>2 ^ (e - 52)\<close> for \<open>2 ^ e \<le> |x| < 2 ^ (e + 1)\<close>, and \<open>2 ^ -1074\<close> below the
  smallest normal number \<open>2 ^ -1022\<close>; a rounded magnitude of \<open>2 ^ 1024\<close> or more is an
  infinity.
\<close>

definition binary64 :: "real \<Rightarrow> jsnum" where
  "binary64 x =
     (let ulp = (if \<bar>x\<bar> < 2 powr (-1022) then 2 powr (-1074)
                 else 2 powr of_int (\<lfloor>log 2 \<bar>x\<bar>\<rfloor> - 52));
          r = of_int (roundHalfEven (x / ulp)) * ulp
      in if 2 powr 1024 \<le> r then Infinity
         else if r \<le> - (2 powr 1024) then NegInfinity
         else Num r)"

text \<open>\<open>Math.min(a, b)\<close> and \<open>Math.max(a, b)\<close> on numbers: \<open>NaN\<close> if either is.\<close>

fun js_min :: "jsnum \<Rightarrow> jsnum \<Rightarrow> jsnum" where
  "js_min NaN b = NaN"
| "js_min a NaN = NaN"
| "js_min NegInfinity b = NegInfinity"
| "js_min a NegInfinity = NegInfinity"
| "js_min Infinity b = b"
| "js_min a Infinity = a"
| "js_min (Num a) (Num b) = Num (min a b)"

fun js_max :: "jsnum \<Rightarrow> jsnum \<Rightarrow> jsnum" where
  "js_max NaN b = NaN"
| "js_max a NaN = NaN"
| "js_max Infinity b = Infinity"
| "js_max a Infinity = Infinity"
| "js_max NegInfinity b = b"
| "js_max a NegInfinity = a"
| "js_max (Num a) (Num b) = Num (max a b)"

text \<open>\<open>a + b\<close> and \<open>a < b\<close> on numbers; a comparison with \<open>NaN\<close> is false.\<close>

fun js_add :: "jsnum \<Rightarrow> jsnum \<Rightarrow> jsnum" where
  "js_add NaN b = NaN"
| "js_add a NaN = NaN"
| "js_add Infinity NegInfinity = NaN"
| "js_add NegInfinity Infinity = NaN"
| "js_add Infinity b = Infinity"
| "js_add a Infinity = Infinity"
| "js_add NegInfinity b = NegInfinity"
| "js_add a NegInfinity = NegInfinity"
| "js_add (Num a) (Num b) = binary64 (a + b)"

fun js_less :: "jsnum \<Rightarrow> jsnum \<Rightarrow> bool" where
  "js_less NaN b = False"
| "js_less a NaN = False"
| "js_less NegInfinity NegInfinity = False"
| "js_less NegInfinity b = True"
| "js_less (Num a) (Num b) = (a < b)"
| "js_less (Num a) Infinity = True"
| "js_less (Num a) NegInfinity = False"
| "js_less Infinity b = False"

text \<open>
  A payload field that the code uses both under \<open>||\<close> and as a number: absent
  (\<open>undefined\<close>), a number, or a value of another JSON type (\<open>null\<close>, a boolean, a
  string, an array, an object), which is known here by its truthiness and by the number
  it converts to.
\<close>

datatype jsvalue = Undefined | NumberValue jsnum | OtherValue bool jsnum

fun truthy :: "jsvalue \<Rightarrow> bool" where
  "truthy Undefined = False"
| "truthy (NumberValue n) = (n \<noteq> Num 0 \<and> n \<noteq> NaN)"
| "truthy (OtherValue t n) = t"

fun toNumber :: "jsvalue \<Rightarrow> jsnum" where
  "toNumber Undefined = NaN"
| "toNumber (NumberValue n) = n"
| "toNumber (OtherValue t n) = n"

text \<open>
  A path entry.  The code reads \<open>point.x\<close> and \<open>point.y\<close> only as arguments of
  \<open>Math.min\<close> and \<open>Math.max\<close>, which convert them to numbers: the fields hold the
  converted value, \<open>NaN\<close> for a coordinate that is missing or not numeric.
\<close>

record point =
  p_x :: jsnum
  p_y :: jsnum

type_synonym userId = string

text \<open>
  The \<open>op\<close> payload of a \<open>draw\<close> message.  The server does not inspect it, so
  any of its fields may be absent (\<open>None\<close>, and \<open>Undefined\<close> for the width); a message
  without \<open>op\<close> spreads to the payload with every field absent.  A path, when present,
  is an array of entries with the properties \<open>x\<close> and \<open>y\<close>.
\<close>

record rawOp =
  path :: "point list option"
  color :: "string option"
  width :: jsvalue
  mode :: "string option"

text \<open>
  A logged operation: the payload spread first, then \<open>userId\<close>, \<open>opId\<close> and
  \<open>timestamp\<close> (the constant field \<open>type: 'draw'\<close> is left out).
\<close>

record operation = rawOp +
  userId :: userId
  opId :: nat
  timestamp :: nat

record box =
  minX :: jsnum
  maxX :: jsnum
  minY :: jsnum
  maxY :: jsnum

section \<open>DrawingState\<close>

record drawingState =
  ops :: "operation list"
  undoStack :: "operation list"
  nextOpId :: nat
  userOperations :: "userId \<rightharpoonup> nat list"

text \<open>
  What \<open>undo\<close> and \<open>redo\<close> return.  \<open>canUndo\<close> and \<open>canRedo\<close> are \<open>None\<close> where
  the returned object has no such field.
\<close>

record result =
  success :: bool
  message :: string
  resOp :: "operation option"
  canUndo :: "bool option"
  canRedo :: "bool option"

record snapshot =
  snap_ops :: "operation list"
  snap_canUndo :: bool
  snap_canRedo :: bool

definition newDrawingState :: drawingState where
  "newDrawingState =
     \<lparr>ops = [], undoStack = [], nextOpId = 1, userOperations = Map.empty\<rparr>"

text \<open>\<open>this.userOperations.get(u) || []\<close>\<close>

definition userOpsOf :: "drawingState \<Rightarrow> userId \<Rightarrow> nat list" where
  "userOpsOf s u = (case userOperations s u of None \<Rightarrow> [] | Some l \<Rightarrow> l)"

text \<open>
  \<open>addOperation(input)\<close>; \<open>now\<close> is the value \<open>Date.now()\<close> returns during the call.
\<close>

definition addOperation ::
  "drawingState \<Rightarrow> userId \<times> rawOp \<Rightarrow> nat \<Rightarrow> drawingState \<times> operation" where
  "addOperation s input now =
     (let u = fst input; r = snd input;
          op = \<lparr>path = path r, color = color r, width = width r, mode = mode r,
                userId = u, opId = nextOpId s, timestamp = now\<rparr>
      in (s\<lparr>ops := ops s @ [op],
            nextOpId := Suc (nextOpId s),
            userOperations := (userOperations s)(u \<mapsto> userOpsOf s u @ [opId op])\<rparr>,
          op))"

text \<open>\<open>getSnapshot(userId)\<close>; the argument is \<open>None\<close> for the call without one.\<close>

definition getSnapshot :: "drawingState \<Rightarrow> userId option \<Rightarrow> snapshot" where
  "getSnapshot s uo =
     (let userOps = (case uo of None \<Rightarrow> [] | Some u \<Rightarrow> userOpsOf s u);
          userUndoOps = filter (\<lambda>op. Some (userId op) = uo) (undoStack s)
      in \<lparr>snap_ops = ops s,
          snap_canUndo = (length userOps > 0),
          snap_canRedo = (length userUndoOps > 0)\<rparr>)"

text \<open>
  \<open>getUserLastOp\<close>: with an empty index \<open>lastOpId\<close> is \<open>undefined\<close> and \<open>find\<close>
  matches nothing.
\<close>

definition getUserLastOp :: "drawingState \<Rightarrow> userId \<Rightarrow> operation option" where
  "getUserLastOp s u =
     (let userOps = userOpsOf s u
      in if userOps = [] then None
         else List.find (\<lambda>op. opId op = last userOps) (ops s))"

fun findIndex :: "('a \<Rightarrow> bool) \<Rightarrow> 'a list \<Rightarrow> nat option" where
  "findIndex P [] = None"
| "findIndex P (x # xs) = (if P x then Some 0 else map_option Suc (findIndex P xs))"

text \<open>\<open>this.userOperations.get(u)?.length > 0\<close>\<close>

definition hasUserOps :: "drawingState \<Rightarrow> userId \<Rightarrow> bool" where
  "hasUserOps s u = (case userOperations s u of None \<Rightarrow> False | Some l \<Rightarrow> length l > 0)"

text \<open>
  \<open>undo(requestingUserId)\<close>.  \<open>userOps.pop()\<close> is reached only after \<open>getUserLastOp\<close>
  returned an operation, when the index entry exists (lemma \<open>getUserLastOp_index\<close>),
  so the update through \<open>map_option\<close> never meets a missing entry.
\<close>

definition undo :: "drawingState \<Rightarrow> userId \<Rightarrow> drawingState \<times> result" where
  "undo s u =
     (case getUserLastOp s u of
        None \<Rightarrow>
          (s, \<lparr>success = False, message = ''Nothing to undo'', resOp = None,
               canUndo = Some False, canRedo = Some (length (undoStack s) > 0)\<rparr>)
      | Some lastOp \<Rightarrow>
          (case findIndex (\<lambda>op. opId op = opId lastOp) (ops s) of
             None \<Rightarrow>
               (s, \<lparr>success = False, message = ''Operation not found'', resOp = None,
                    canUndo = None, canRedo = None\<rparr>)
           | Some opIndex \<Rightarrow>
               (let op = ops s ! opIndex;
                    s' = s\<lparr>ops := take opIndex (ops s) @ drop (Suc opIndex) (ops s),
                           undoStack := undoStack s @ [op],
                           userOperations :=
                             (userOperations s)(u := map_option butlast (userOperations s u))\<rparr>
                in (s', \<lparr>success = True, message = ''Operation undone'', resOp = Some op,
                         canUndo = Some (hasUserOps s' u), canRedo = Some True\<rparr>))))"

text \<open>
  \<open>op.width || 4\<close> as \<open>Math.max\<close> reads it: the number a truthy width converts to,
  and 4 for a falsy one (absent, \<open>null\<close>, 0, \<open>NaN\<close>, the empty string, \<open>false\<close>).
\<close>

definition widthOr4 :: "operation \<Rightarrow> jsnum" where
  "widthOr4 op = (if truthy (width op) then toNumber (width op) else Num 4)"

definition getPathBoundingBox :: "point list \<Rightarrow> box" where
  "getPathBoundingBox pth =
     fold (\<lambda>pt b. \<lparr>minX = js_min (minX b) (p_x pt), maxX = js_max (maxX b) (p_x pt),
                  minY = js_min (minY b) (p_y pt), maxY = js_max (maxY b) (p_y pt)\<rparr>)
          pth
          \<lparr>minX = Infinity, maxX = NegInfinity, minY = Infinity, maxY = NegInfinity\<rparr>"

definition operationsOverlap :: "operation \<Rightarrow> operation \<Rightarrow> bool" where
  "operationsOverlap op1 op2 =
     (case (path op1, path op2) of
        (Some path1, Some path2) \<Rightarrow>
          if length path1 < 2 \<or> length path2 < 2 then False
          else
            (let box1 = getPathBoundingBox path1;
                 box2 = getPathBoundingBox path2;
                 padding = js_max (widthOr4 op1) (widthOr4 op2)
             in \<not> (js_less (js_add (maxX box1) padding) (minX box2) \<or>
                    js_less (js_add (maxX box2) padding) (minX box1) \<or>
                    js_less (js_add (maxY box1) padding) (minY box2) \<or>
                    js_less (js_add (maxY box2) padding) (minY box1)))
      | _ \<Rightarrow> False)"

text \<open>
  The \<open>while (opIndex >= 0)\<close> scan of \<open>redo\<close>: the second argument is \<open>opIndex + 1\<close>,
  and the result is the first operation of the requester met from the top of the stack.
\<close>

fun latestUndoOf :: "operation list \<Rightarrow> nat \<Rightarrow> userId \<Rightarrow> operation option" where
  "latestUndoOf st 0 u = None"
| "latestUndoOf st (Suc i) u =
     (if userId (st ! i) = u then Some (st ! i) else latestUndoOf st i u)"

text \<open>
  The \<open>for (let i = this.ops.length - 1; i >= 0; i--)\<close> scan of \<open>redo\<close>: the second
  argument is \<open>i + 1\<close>; when no element has a timestamp \<open>\<le> t\<close> the index keeps its
  initial value \<open>this.ops.length\<close>.
\<close>

fun insertIndexFrom :: "operation list \<Rightarrow> nat \<Rightarrow> nat \<Rightarrow> nat" where
  "insertIndexFrom os 0 t = length os"
| "insertIndexFrom os (Suc i) t =
     (if timestamp (os ! i) \<le> t then i + 1 else insertIndexFrom os i t)"

definition redoFailure :: "drawingState \<Rightarrow> userId \<Rightarrow> string \<Rightarrow> result" where
  "redoFailure s u m =
     \<lparr>success = False, message = m, resOp = None,
      canUndo = Some (hasUserOps s u), canRedo = Some False\<rparr>"

definition redo :: "drawingState \<Rightarrow> userId \<Rightarrow> drawingState \<times> result" where
  "redo s u =
     (if length (undoStack s) = 0 then (s, redoFailure s u ''Nothing to redo'')
      else
        (case latestUndoOf (undoStack s) (length (undoStack s)) u of
           None \<Rightarrow> (s, redoFailure s u ''No operations to redo'')
         | Some op \<Rightarrow>
             (let latestOpTimestamp =
                    (if length (ops s) > 0 then timestamp (last (ops s)) else 0)
              in if timestamp op < latestOpTimestamp \<and>
                    list_ex (\<lambda>existingOp. timestamp existingOp > timestamp op \<and>
                                          operationsOverlap existingOp op) (ops s)
                 then (s, redoFailure s u ''Cannot redo due to newer overlapping operations'')
                 else
                   (let insertIndex = insertIndexFrom (ops s) (length (ops s)) (timestamp op);
                        s' = s\<lparr>ops := take insertIndex (ops s) @ [op] @ drop insertIndex (ops s),
                               undoStack := butlast (undoStack s),
                               userOperations :=
                                 (userOperations s)(u \<mapsto> userOpsOf s u @ [opId op])\<rparr>
                    in (s', \<lparr>success = True, message = ''Operation redone'', resOp = Some op,
                             canUndo = Some True,
                             canRedo = Some (length (undoStack s') > 0)\<rparr>)))))"

section \<open>Rooms and the message dispatcher\<close>

text \<open>
  A connection is the \<open>ws\<close> object of the server: the fields the handlers read and
  write.  \<open>ws_roomId = None\<close> stands for the \<open>undefined\<close> of a fresh connection and
  the \<open>null\<close> that \<open>removeClient\<close> stores; \<open>ws_open\<close> is
  \<open>readyState === WebSocket.OPEN\<close>.  Connections live in a store indexed by numbers,
  and a room's \<open>clients\<close> set lists indices in insertion order.
\<close>

record socket =
  ws_userId :: userId
  ws_roomId :: "string option"
  ws_color :: string
  ws_open :: bool

record room =
  room_id :: string
  clients :: "nat list"
  drawingState :: drawingState
  lastActivity :: nat
  userColors :: "userId \<rightharpoonup> string"

record server =
  sockets :: "nat \<Rightarrow> socket"
  rooms :: "string \<rightharpoonup> room"

datatype inmsg =
    Ping
  | JoinRoom "string option"
  | Draw rawOp
  | Cursor real real
  | Undo
  | Redo
  | Clear
  | Unknown string

text \<open>
  Outbound messages.  \<open>UndoMsg\<close> and \<open>RedoMsg\<close> carry the fields \<open>success\<close>,
  \<open>message\<close>, \<open>op\<close>, \<open>canUndo\<close>, \<open>canRedo\<close> as a \<open>result\<close> and the optional
  \<open>userId\<close>; absent fields are \<open>None\<close>.
\<close>

datatype outmsg =
    Pong
  | RoomJoined string snapshot
  | UsersUpdated "(userId \<times> string) list"
  | OpMsg operation
  | CursorMsg userId real real
  | UndoMsg result "userId option"
  | RedoMsg result "userId option"
  | ClearMsg bool string "userId option"
  | StateUpdate "operation list" bool bool "(userId \<times> string option) list"

definition newRoom :: "string \<Rightarrow> nat \<Rightarrow> room" where
  "newRoom rid now =
     \<lparr>room_id = rid, clients = [], drawingState = newDrawingState, lastActivity = now,
      userColors = Map.empty\<rparr>"

text \<open>\<open>Rooms.findBySocket\<close>: a missing or empty \<open>roomId\<close> is falsy.\<close>

definition findBySocket :: "server \<Rightarrow> nat \<Rightarrow> room option" where
  "findBySocket srv c =
     (case ws_roomId (sockets srv c) of
        None \<Rightarrow> None
      | Some rid \<Rightarrow> if rid = [] then None else rooms srv rid)"

text \<open>
  \<open>Room.addClient\<close> and \<open>Room.removeClient\<close> change the room and the
  connection; both are returned through the server state.
\<close>

definition addClient :: "server \<Rightarrow> room \<Rightarrow> nat \<Rightarrow> nat \<Rightarrow> server" where
  "addClient srv r c now =
     (let ws = sockets srv c;
          cs = (if c \<in> set (clients r) then clients r else clients r @ [c]);
          r1 = r\<lparr>clients := cs, lastActivity := now\<rparr>
      in case userColors r (ws_userId ws) of
           None \<Rightarrow>
             srv\<lparr>sockets := (sockets srv)(c := ws\<lparr>ws_roomId := Some (room_id r)\<rparr>),
                 rooms := (rooms srv)(room_id r \<mapsto>
                            r1\<lparr>userColors := (userColors r)(ws_userId ws \<mapsto> ws_color ws)\<rparr>)\<rparr>
         | Some col \<Rightarrow>
             srv\<lparr>sockets := (sockets srv)(c := ws\<lparr>ws_roomId := Some (room_id r),
                                                  ws_color := col\<rparr>),
                 rooms := (rooms srv)(room_id r \<mapsto> r1)\<rparr>)"

definition removeClient :: "server \<Rightarrow> room \<Rightarrow> nat \<Rightarrow> nat \<Rightarrow> server" where
  "removeClient srv r c now =
     (let ws = sockets srv c;
          cs = filter (\<lambda>k. k \<noteq> c) (clients r);
          hasOtherConnections = list_ex (\<lambda>k. ws_userId (sockets srv k) = ws_userId ws) cs;
          r1 = r\<lparr>clients := cs, lastActivity := now\<rparr>;
          r2 = (if hasOtherConnections then r1
                else r1\<lparr>userColors := (userColors r)(ws_userId ws := None)\<rparr>)
      in srv\<lparr>sockets := (sockets srv)(c := ws\<lparr>ws_roomId := None\<rparr>),
             rooms := (rooms srv)(room_id r \<mapsto> r2)\<rparr>)"

text \<open>
  \<open>Room.getActiveUsers\<close>: one entry per user identity, in the order in which the
  identities first occur among the clients.
\<close>

definition getActiveUsers :: "server \<Rightarrow> room \<Rightarrow> (userId \<times> string option) list" where
  "getActiveUsers srv r =
     map (\<lambda>u. (u, userColors r u))
         (rev (remdups (rev (map (\<lambda>k. ws_userId (sockets srv k)) (clients r)))))"

text \<open>The user list of the \<open>users-updated\<close> message: one entry per connection.\<close>

definition clientUsers :: "server \<Rightarrow> room \<Rightarrow> (userId \<times> string) list" where
  "clientUsers srv r =
     map (\<lambda>k. (ws_userId (sockets srv k), ws_color (sockets srv k))) (clients r)"

text \<open>The clients of a room whose connection is open, in iteration order.\<close>

definition openClients :: "server \<Rightarrow> room \<Rightarrow> nat list" where
  "openClients srv r = filter (\<lambda>k. ws_open (sockets srv k)) (clients r)"

definition broadcastRoom :: "server \<Rightarrow> room \<Rightarrow> outmsg \<Rightarrow> (nat \<times> outmsg) list" where
  "broadcastRoom srv r data = map (\<lambda>k. (k, data)) (openClients srv r)"

text \<open>The \<open>state-update\<close> sent to each open client with that client's own snapshot.\<close>

definition stateUpdates :: "server \<Rightarrow> room \<Rightarrow> (nat \<times> outmsg) list" where
  "stateUpdates srv r =
     map (\<lambda>k. let userSnapshot = getSnapshot (drawingState r) (Some (ws_userId (sockets srv k)))
               in (k, StateUpdate (snap_ops userSnapshot) (snap_canUndo userSnapshot)
                        (snap_canRedo userSnapshot) (getActiveUsers srv r)))
         (openClients srv r)"

definition notInRoom :: result where
  "notInRoom = \<lparr>success = False, message = ''Not in a room'', resOp = None,
                canUndo = None, canRedo = None\<rparr>"

text \<open>
  The \<open>connection\<close> handler: the fresh identity and the colour drawn from the
  palette are parameters.
\<close>

definition connect :: "server \<Rightarrow> nat \<Rightarrow> userId \<Rightarrow> string \<Rightarrow> server" where
  "connect srv c uid col =
     srv\<lparr>sockets := (sockets srv)(c := \<lparr>ws_userId = uid, ws_roomId = None,
                                        ws_color = col, ws_open = True\<rparr>)\<rparr>"

text \<open>
  \<open>handleMessage(ws, msg)\<close>: the new server state and the messages sent, each with the
  connection it is sent to, in sending order.  \<open>now\<close> is the value of \<open>Date.now()\<close>
  during the call.
\<close>

fun handleMessage :: "server \<Rightarrow> nat \<Rightarrow> inmsg \<Rightarrow> nat \<Rightarrow> server \<times> (nat \<times> outmsg) list" where
  "handleMessage srv c Ping now = (srv, [(c, Pong)])"
| "handleMessage srv c (JoinRoom rid) now =
     (let (srv1, out1) =
            (case findBySocket srv c of
               None \<Rightarrow> (srv, [])
             | Some oldRoom \<Rightarrow>
                 (let srv' = removeClient srv oldRoom c now;
                      oldRoom' = the (rooms srv' (room_id oldRoom))
                  in (srv', broadcastRoom srv' oldRoom' (UsersUpdated (clientUsers srv' oldRoom')))));
          roomId = (case rid of None \<Rightarrow> ''default''
                    | Some i \<Rightarrow> if i = [] then ''default'' else i);
          (srv2, r) =
            (case rooms srv1 roomId of
               Some r \<Rightarrow> (srv1, r)
             | None \<Rightarrow> (srv1\<lparr>rooms := (rooms srv1)(roomId \<mapsto> newRoom roomId now)\<rparr>,
                        newRoom roomId now));
          srv3 = addClient srv2 r c now;
          r' = the (rooms srv3 (room_id r))
      in (srv3,
          out1 @ [(c, RoomJoined roomId (getSnapshot (drawingState r') None))] @
          broadcastRoom srv3 r' (UsersUpdated (clientUsers srv3 r'))))"
| "handleMessage srv c (Draw rawop) now =
     (case findBySocket srv c of
        None \<Rightarrow> (srv, [])
      | Some r \<Rightarrow>
          (let (ds, op) = addOperation (drawingState r) (ws_userId (sockets srv c), rawop) now;
               r' = r\<lparr>drawingState := ds\<rparr>
           in (srv\<lparr>rooms := (rooms srv)(room_id r \<mapsto> r')\<rparr>,
               map (\<lambda>k. (k, OpMsg op)) (openClients srv r'))))"
| "handleMessage srv c (Cursor x y) now =
     (case findBySocket srv c of
        None \<Rightarrow> (srv, [])
      | Some r \<Rightarrow> (srv, broadcastRoom srv r (CursorMsg (ws_userId (sockets srv c)) x y)))"
| "handleMessage srv c Undo now =
     (case findBySocket srv c of
        None \<Rightarrow> (srv, [(c, UndoMsg notInRoom None)])
      | Some r \<Rightarrow>
          (let (ds, res) = undo (drawingState r) (ws_userId (sockets srv c));
               r' = r\<lparr>drawingState := ds\<rparr>;
               srv' = srv\<lparr>rooms := (rooms srv)(room_id r \<mapsto> r')\<rparr>
           in if success res
              then (srv',
                    broadcastRoom srv' r'
                      (UndoMsg (res\<lparr>message := ''Operation undone''\<rparr>)
                               (Some (ws_userId (sockets srv c)))) @
                    stateUpdates srv' r')
              else (srv', [(c, UndoMsg (res\<lparr>resOp := None\<rparr>) None)])))"
| "handleMessage srv c Clear now =
     (case findBySocket srv c of
        None \<Rightarrow> (srv, [(c, ClearMsg False ''Not in a room'' None)])
      | Some r \<Rightarrow>
          (let r' = r\<lparr>drawingState := newDrawingState\<rparr>;
               srv' = srv\<lparr>rooms := (rooms srv)(room_id r \<mapsto> r')\<rparr>;
               snapshot = getSnapshot (drawingState r') None
           in (srv',
               broadcastRoom srv' r'
                 (ClearMsg True ''Canvas cleared'' (Some (ws_userId (sockets srv c)))) @
               broadcastRoom srv' r'
                 (StateUpdate (snap_ops snapshot) (snap_canUndo snapshot)
                    (snap_canRedo snapshot) (getActiveUsers srv' r')))))"
| "handleMessage srv c Redo now =
     (case findBySocket srv c of
        None \<Rightarrow> (srv, [(c, RedoMsg notInRoom None)])
      | Some r \<Rightarrow>
          (let (ds, res) = redo (drawingState r) (ws_userId (sockets srv c));
               r' = r\<lparr>drawingState := ds\<rparr>;
               srv' = srv\<lparr>rooms := (rooms srv)(room_id r \<mapsto> r')\<rparr>
           in if success res
              then (srv',
                    broadcastRoom srv' r'
                      (RedoMsg (res\<lparr>message := ''Operation redone''\<rparr>)
                               (Some (ws_userId (sockets srv c)))) @
                    stateUpdates srv' r')
              else (srv', [(c, RedoMsg (res\<lparr>resOp := None\<rparr>) None)])))"
| "handleMessage srv c (Unknown t) now = (srv, [])"

text \<open>A server with no room and no connection yet: every slot of the store is closed.\<close>

definition newServer :: server where
  "newServer =
     \<lparr>sockets = (\<lambda>_. \<lparr>ws_userId = [], ws_roomId = None, ws_color = [], ws_open = False\<rparr>),
      rooms = Map.empty\<rparr>"

text \<open>
  A point with two finite numeric coordinates, and the number of such points in a
  payload's path (0 for a missing path).
\<close>

definition finitePoint :: "point \<Rightarrow> bool" where
  "finitePoint pt \<longleftrightarrow> finite_num (p_x pt) \<and> finite_num (p_y pt)"

definition validPoints :: "rawOp \<Rightarrow> nat" where
  "validPoints r =
     (case path r of None \<Rightarrow> 0 | Some pth \<Rightarrow> length (filter finitePoint pth))"

section \<open>Sequences of calls on one log\<close>

datatype call = AddOperation userId rawOp nat | UndoCall userId | RedoCall userId

fun step :: "drawingState \<Rightarrow> call \<Rightarrow> drawingState" where
  "step s (AddOperation u r now) = fst (addOperation s (u, r) now)"
| "step s (UndoCall u) = fst (undo s u)"
| "step s (RedoCall u) = fst (redo s u)"

text \<open>The log after a sequence of calls on a fresh \<open>DrawingState\<close>.\<close>

definition run :: "call list \<Rightarrow> drawingState" where
  "run calls = foldl step newDrawingState calls"

text \<open>The operations returned by the \<open>addOperation\<close> calls of a sequence, in call order.\<close>

fun addedOps :: "drawingState \<Rightarrow> call list \<Rightarrow> operation list" where
  "addedOps s [] = []"
| "addedOps s (AddOperation u r now # cs) =
     snd (addOperation s (u, r) now) # addedOps (fst (addOperation s (u, r) now)) cs"
| "addedOps s (UndoCall u # cs) = addedOps (fst (undo s u)) cs"
| "addedOps s (RedoCall u # cs) = addedOps (fst (redo s u)) cs"

text \<open>The values \<open>Date.now()\<close> returned during the \<open>addOperation\<close> calls of a sequence.\<close>

fun clockReadings :: "call list \<Rightarrow> nat list" where
  "clockReadings [] = []"
| "clockReadings (AddOperation u r now # cs) = now # clockReadings cs"
| "clockReadings (UndoCall u # cs) = clockReadings cs"
| "clockReadings (RedoCall u # cs) = clockReadings cs"

section \<open>Notions used to state the properties\<close>

text \<open>An operation whose path is missing or has fewer than two points.\<close>

definition degenerate :: "operation \<Rightarrow> bool" where
  "degenerate op = (case path op of None \<Rightarrow> True | Some pth \<Rightarrow> length pth < 2)"

definition redoConflictMessage :: string where
  "redoConflictMessage = ''Cannot redo due to newer overlapping operations''"

text \<open>Whether undone operations authored by \<open>u\<close> remain in \<open>undoStack\<close>.\<close>

definition ownUndone :: "drawingState \<Rightarrow> userId \<Rightarrow> bool" where
  "ownUndone s u = list_ex (\<lambda>op. userId op = u) (undoStack s)"

text \<open>
  Axis-aligned boxes over the reals: the bounding box of a non-empty path of points with
  finite coordinates, a box grown by \<open>d\<close> on every side, and intersection of two boxes.
\<close>

record rbox =
  lo_x :: real
  hi_x :: real
  lo_y :: real
  hi_y :: real

definition bbox :: "point list \<Rightarrow> rbox" where
  "bbox pth =
     \<lparr>lo_x = Min ((\<lambda>pt. numOf (p_x pt)) ` set pth), hi_x = Max ((\<lambda>pt. numOf (p_x pt)) ` set pth),
      lo_y = Min ((\<lambda>pt. numOf (p_y pt)) ` set pth), hi_y = Max ((\<lambda>pt. numOf (p_y pt)) ` set pth)\<rparr>"

definition expand :: "real \<Rightarrow> rbox \<Rightarrow> rbox" where
  "expand d b = \<lparr>lo_x = lo_x b - d, hi_x = hi_x b + d, lo_y = lo_y b - d, hi_y = hi_y b + d\<rparr>"

definition boxesIntersect :: "rbox \<Rightarrow> rbox \<Rightarrow> bool" where
  "boxesIntersect a b \<longleftrightarrow>
     lo_x a \<le> hi_x b \<and> lo_x b \<le> hi_x a \<and> lo_y a \<le> hi_y b \<and> lo_y b \<le> hi_y a"

text \<open>
  Box \<open>a\<close> reaches box \<open>b\<close> under the padding \<open>p\<close>: on neither axis is the maximum of
  \<open>a\<close> plus \<open>p\<close>, added as JavaScript numbers, less than the minimum of \<open>b\<close>.
\<close>

definition reaches :: "jsnum \<Rightarrow> rbox \<Rightarrow> rbox \<Rightarrow> bool" where
  "reaches p a b \<longleftrightarrow>
     \<not> js_less (js_add (Num (hi_x a)) p) (Num (lo_x b)) \<and>
     \<not> js_less (js_add (Num (hi_y a)) p) (Num (lo_y b))"

text \<open>
  The conflict predicate in the specification's words: both bounding boxes grown on
  every side by the greater of the two stroke widths, then intersected.
\<close>

definition specOverlap :: "operation \<Rightarrow> operation \<Rightarrow> bool" where
  "specOverlap op1 op2 =
     (case (path op1, path op2, width op1, width op2) of
        (Some path1, Some path2, NumberValue (Num w1), NumberValue (Num w2)) \<Rightarrow>
          boxesIntersect (expand (max w1 w2) (bbox path1)) (expand (max w1 w2) (bbox path2))
      | _ \<Rightarrow> False)"

text \<open>A two-point stroke of width 4, for the concrete scenarios.\<close>

definition strokeRaw :: "real \<Rightarrow> real \<Rightarrow> real \<Rightarrow> real \<Rightarrow> rawOp" where
  "strokeRaw a b c d =
     \<lparr>path = Some [\<lparr>p_x = Num a, p_y = Num b\<rparr>, \<lparr>p_x = Num c, p_y = Num d\<rparr>],
      color = Some ''#000000'', width = NumberValue (Num 4), mode = Some ''brush''\<rparr>"

definition stroke :: "userId \<Rightarrow> nat \<Rightarrow> nat \<Rightarrow> real \<Rightarrow> real \<Rightarrow> real \<Rightarrow> real \<Rightarrow> operation" where
  "stroke u i t a b c d =
     \<lparr>path = Some [\<lparr>p_x = Num a, p_y = Num b\<rparr>, \<lparr>p_x = Num c, p_y = Num d\<rparr>],
      color = Some ''#000000'', width = NumberValue (Num 4), mode = Some ''brush'',
      userId = u, opId = i, timestamp = t\<rparr>"

text \<open>
  The invariant of the logs reachable from a fresh one: identities in the log are below
  \<open>nextOpId\<close>, an identity determines its author, and each author's index lists exactly
  the identities of that author's operations in \<open>ops\<close>, with multiplicity.
\<close>

definition logInv :: "drawingState \<Rightarrow> bool" where
  "logInv s \<longleftrightarrow>
     (\<forall>o1 \<in> set (ops s) \<union> set (undoStack s). opId o1 < nextOpId s) \<and>
     (\<forall>o1 \<in> set (ops s) \<union> set (undoStack s). \<forall>o2 \<in> set (ops s) \<union> set (undoStack s).
         opId o1 = opId o2 \<longrightarrow> userId o1 = userId o2) \<and>
     (\<forall>u. mset (userOpsOf s u) =
           image_mset opId (filter_mset (\<lambda>o1. userId o1 = u) (mset (ops s))))"

section \<open>Auxiliary facts\<close>

subsection \<open>Searching lists\<close>

lemma findIndex_Some:
  "findIndex P xs = Some i \<Longrightarrow> i < length xs \<and> P (xs ! i) \<and> (\<forall>j<i. \<not> P (xs ! j))"
proof (induction xs arbitrary: i)
  case Nil
  then show ?case by simp
next
  case (Cons x xs)
  show ?case
  proof (cases "P x")
    case True
    with Cons.prems show ?thesis by simp
  next
    case False
    with Cons.prems obtain k where k: "findIndex P xs = Some k" "i = Suc k" by auto
    from Cons.IH[OF k(1)] False k(2) show ?thesis
      by (auto simp: nth_Cons split: nat.splits)
  qed
qed

lemma findIndex_None: "findIndex P xs = None \<longleftrightarrow> (\<forall>x\<in>set xs. \<not> P x)"
  by (induction xs) auto

lemma latestUndoOf_Some:
  "latestUndoOf st n u = Some op \<Longrightarrow> n \<le> length st \<Longrightarrow>
     (\<exists>k<n. st ! k = op \<and> userId op = u \<and> (\<forall>j. k < j \<and> j < n \<longrightarrow> userId (st ! j) \<noteq> u))"
proof (induction n)
  case 0
  then show ?case by simp
next
  case (Suc n)
  show ?case
  proof (cases "userId (st ! n) = u")
    case True
    with Suc.prems show ?thesis by auto
  next
    case False
    with Suc.prems have "latestUndoOf st n u = Some op" "n \<le> length st" by auto
    from Suc.IH[OF this] obtain k where
      k: "k < n" "st ! k = op" "userId op = u" "\<forall>j. k < j \<and> j < n \<longrightarrow> userId (st ! j) \<noteq> u"
      by blast
    have "\<forall>j. k < j \<and> j < Suc n \<longrightarrow> userId (st ! j) \<noteq> u"
      using k(4) False by (auto simp: less_Suc_eq)
    with k show ?thesis by (metis less_Suc_eq)
  qed
qed

lemma latestUndoOf_None:
  "latestUndoOf st n u = None \<Longrightarrow> n \<le> length st \<Longrightarrow> (\<forall>j<n. userId (st ! j) \<noteq> u)"
  by (induction n) (auto simp: less_Suc_eq split: if_splits)

lemma latestUndoOf_top:
  "userId x = u \<Longrightarrow> latestUndoOf (st @ [x]) (length (st @ [x])) u = Some x"
  by simp

lemma insertIndexFrom_le: "n \<le> length os \<Longrightarrow> insertIndexFrom os n t \<le> length os"
  by (induction n) auto

lemma set_insert_at: "set (take k xs @ [x] @ drop k xs) = insert x (set xs)"
proof -
  have "set (take k xs @ [x] @ drop k xs) = insert x (set (take k xs) \<union> set (drop k xs))"
    by simp
  also have "set (take k xs) \<union> set (drop k xs) = set (take k xs @ drop k xs)"
    by (simp only: set_append)
  also have "take k xs @ drop k xs = xs" by (rule append_take_drop_id)
  finally show ?thesis .
qed

lemma mset_insert_at: "mset (take k xs @ [x] @ drop k xs) = add_mset x (mset xs)"
proof -
  have "mset (take k xs @ [x] @ drop k xs) = add_mset x (mset (take k xs) + mset (drop k xs))"
    by simp
  also have "mset (take k xs) + mset (drop k xs) = mset (take k xs @ drop k xs)"
    by (simp only: mset_append)
  also have "take k xs @ drop k xs = xs" by (rule append_take_drop_id)
  finally show ?thesis .
qed

lemma mset_remove_nth:
  "i < length xs \<Longrightarrow> mset (take i xs @ drop (Suc i) xs) = mset xs - {#xs ! i#}"
proof -
  assume "i < length xs"
  then have "xs = take i xs @ xs ! i # drop (Suc i) xs" by (rule id_take_nth_drop)
  then have "mset xs = add_mset (xs ! i) (mset (take i xs @ drop (Suc i) xs))"
    by (metis mset.simps(2) mset_append union_mset_add_mset_right)
  then show ?thesis by simp
qed

lemma mset_butlast: "l \<noteq> [] \<Longrightarrow> mset (butlast l) = mset l - {#last l#}"
proof -
  assume "l \<noteq> []"
  then have "l = butlast l @ [last l]" by simp
  then have "mset l = add_mset (last l) (mset (butlast l))"
    by (metis mset.simps(1) mset.simps(2) mset_append union_mset_add_mset_right add.right_neutral)
  then show ?thesis by simp
qed

lemma set_remove_nth_subset: "set (take i xs @ drop (Suc i) xs) \<subseteq> set xs"
  by (auto dest: in_set_takeD in_set_dropD)

lemma filter_remove_nth:
  assumes "i < length xs" "\<not> P (xs ! i)"
  shows "filter P (take i xs @ drop (Suc i) xs) = filter P xs"
proof -
  from assms(1) have "xs = take i xs @ xs ! i # drop (Suc i) xs" by (rule id_take_nth_drop)
  then have "filter P xs = filter P (take i xs @ xs ! i # drop (Suc i) xs)" by simp
  with assms(2) show ?thesis by simp
qed

subsection \<open>What the three operations do\<close>

lemma addOperation_fields:
  assumes "addOperation s (u, r) now = (s', op)"
  shows "ops s' = ops s @ [op]" "undoStack s' = undoStack s" "nextOpId s' = Suc (nextOpId s)"
     "opId op = nextOpId s" "userId op = u" "timestamp op = now"
     "userOperations s' = (userOperations s)(u \<mapsto> userOpsOf s u @ [nextOpId s])"
  using assms by (auto simp: addOperation_def Let_def)

lemma getUserLastOp_index:
  "getUserLastOp s u = Some lastOp \<Longrightarrow>
     (\<exists>l. userOperations s u = Some l \<and> l \<noteq> [] \<and> opId lastOp = last l \<and> lastOp \<in> set (ops s))"
  by (auto simp: getUserLastOp_def userOpsOf_def Let_def find_Some_iff
           split: if_splits option.splits)

lemma getUserLastOp_None:
  "getUserLastOp s u = None \<longleftrightarrow>
     (userOpsOf s u = [] \<or> (\<forall>o1\<in>set (ops s). opId o1 \<noteq> last (userOpsOf s u)))"
  by (auto simp: getUserLastOp_def Let_def find_None_iff)

lemma undo_success:
  assumes "undo s u = (s', r)" "success r"
  shows "\<exists>i l. i < length (ops s) \<and> userOperations s u = Some l \<and> l \<noteq> [] \<and>
           opId (ops s ! i) = last l \<and> (\<forall>j<i. opId (ops s ! j) \<noteq> last l) \<and>
           resOp r = Some (ops s ! i) \<and> canRedo r = Some True \<and>
           s' = s\<lparr>ops := take i (ops s) @ drop (Suc i) (ops s),
                  undoStack := undoStack s @ [ops s ! i],
                  userOperations := (userOperations s)(u \<mapsto> butlast l)\<rparr>"
proof -
  from assms obtain lastOp where lo: "getUserLastOp s u = Some lastOp"
    by (auto simp: undo_def split: option.splits)
  from getUserLastOp_index[OF lo] obtain l where
    l: "userOperations s u = Some l" "l \<noteq> []" "opId lastOp = last l" by blast
  from assms lo obtain i where i: "findIndex (\<lambda>op. opId op = opId lastOp) (ops s) = Some i"
    by (auto simp: undo_def split: option.splits)
  from findIndex_Some[OF i] l(3) have
    "i < length (ops s)" "opId (ops s ! i) = last l" "\<forall>j<i. opId (ops s ! j) \<noteq> last l"
    by auto
  moreover from assms lo i l have "resOp r = Some (ops s ! i)" "canRedo r = Some True"
    "s' = s\<lparr>ops := take i (ops s) @ drop (Suc i) (ops s),
                  undoStack := undoStack s @ [ops s ! i],
                  userOperations := (userOperations s)(u \<mapsto> butlast l)\<rparr>"
    by (auto simp: undo_def Let_def)
  ultimately show ?thesis using l by blast
qed

lemma undo_failed:
  assumes "undo s u = (s', r)" "\<not> success r"
  shows "s' = s \<and> message r = ''Nothing to undo'' \<and> getUserLastOp s u = None"
proof (cases "getUserLastOp s u")
  case None
  with assms show ?thesis by (auto simp: undo_def)
next
  case (Some lastOp)
  from getUserLastOp_index[OF Some] have "lastOp \<in> set (ops s)" by blast
  then have "findIndex (\<lambda>op. opId op = opId lastOp) (ops s) \<noteq> None"
    by (auto simp: findIndex_None)
  with assms Some show ?thesis by (auto simp: undo_def Let_def split: option.splits)
qed

lemma redo_failed_state: "redo s u = (s', r) \<Longrightarrow> \<not> success r \<Longrightarrow> s' = s"
  by (auto simp: redo_def redoFailure_def Let_def split: if_splits option.splits)

lemma redo_success:
  assumes "redo s u = (s', r)" "success r"
  shows "\<exists>op. latestUndoOf (undoStack s) (length (undoStack s)) u = Some op \<and>
           undoStack s \<noteq> [] \<and> resOp r = Some op \<and>
           s' = s\<lparr>ops := take (insertIndexFrom (ops s) (length (ops s)) (timestamp op)) (ops s) @ [op] @
                         drop (insertIndexFrom (ops s) (length (ops s)) (timestamp op)) (ops s),
                  undoStack := butlast (undoStack s),
                  userOperations := (userOperations s)(u \<mapsto> userOpsOf s u @ [opId op])\<rparr>"
  using assms
  by (auto simp: redo_def redoFailure_def Let_def split: if_splits option.splits)

subsection \<open>Calls that add, and the insertion point of \<open>redo\<close>\<close>

lemma nextOpId_undo: "nextOpId (fst (undo s u)) = nextOpId s"
  by (auto simp: undo_def Let_def split: option.splits)

lemma nextOpId_redo: "nextOpId (fst (redo s u)) = nextOpId s"
  by (auto simp: redo_def Let_def split: option.splits)

lemma addedOps_from:
  "map timestamp (addedOps s calls) = clockReadings calls \<and>
   map opId (addedOps s calls) = [nextOpId s ..< nextOpId s + length (clockReadings calls)]"
proof (induction s calls rule: addedOps.induct)
  case (1 s)
  show ?case by simp
next
  case (2 s u r now cs)
  have "timestamp (snd (addOperation s (u, r) now)) = now"
    "opId (snd (addOperation s (u, r) now)) = nextOpId s"
    "nextOpId (fst (addOperation s (u, r) now)) = Suc (nextOpId s)"
    by (simp_all add: addOperation_def Let_def)
  moreover have "[nextOpId s ..< nextOpId s + Suc (length (clockReadings cs))] =
      nextOpId s # [Suc (nextOpId s) ..< Suc (nextOpId s) + length (clockReadings cs)]"
    by (simp del: upt_Suc add: upt_conv_Cons)
  ultimately show ?case using 2 by (simp del: upt_Suc)
next
  case (3 s u cs)
  then show ?case by (simp add: nextOpId_undo)
next
  case (4 s u cs)
  then show ?case by (simp add: nextOpId_redo)
qed

lemma insertIndexFrom_gap:
  assumes "i \<le> n" and "n \<le> length ys"
    and "\<forall>j. i \<le> j \<and> j < n \<longrightarrow> t < timestamp (ys ! j)"
    and "0 < i \<longrightarrow> timestamp (ys ! (i - 1)) \<le> t"
  shows "insertIndexFrom ys n t = (if i = 0 then length ys else i)"
  using assms
proof (induction n)
  case 0
  then show ?case by simp
next
  case (Suc n)
  show ?case
  proof (cases "i = Suc n")
    case True
    with Suc.prems(4) have "timestamp (ys ! n) \<le> t" by simp
    with True show ?thesis by simp
  next
    case False
    with Suc.prems(1) have le: "i \<le> n" by simp
    with Suc.prems(3) have "t < timestamp (ys ! n)" by simp
    then have "insertIndexFrom ys (Suc n) t = insertIndexFrom ys n t" by simp
    moreover have "insertIndexFrom ys n t = (if i = 0 then length ys else i)"
      using Suc.IH le Suc.prems by simp
    ultimately show ?thesis by simp
  qed
qed

lemma nth_remove_nth:
  assumes "i < length xs" and "j < length xs - 1"
  shows "(take i xs @ drop (Suc i) xs) ! j = (if j < i then xs ! j else xs ! Suc j)"
  using assms by (simp add: nth_append min_def)

subsection \<open>The invariant of reachable logs\<close>

lemma logInv_new: "logInv newDrawingState"
  by (simp add: logInv_def newDrawingState_def userOpsOf_def)

lemma logInv_addOperation:
  assumes inv: "logInv s"
  shows "logInv (fst (addOperation s (u, r) now))"
proof -
  obtain s' op where a: "addOperation s (u, r) now = (s', op)"
    by (cases "addOperation s (u, r) now")
  note o = addOperation_fields[OF a]
  have old: "\<forall>o1 \<in> set (ops s) \<union> set (undoStack s). opId o1 < nextOpId s"
    using inv unfolding logInv_def by blast
  have sets: "set (ops s') \<union> set (undoStack s') = insert op (set (ops s) \<union> set (undoStack s))"
    by (simp add: o(1,2))
  have i1: "\<forall>o1 \<in> set (ops s') \<union> set (undoStack s'). opId o1 < nextOpId s'"
    unfolding sets o(3) using old o(4) by (simp add: less_Suc_eq)
  have i2: "\<forall>o1 \<in> set (ops s') \<union> set (undoStack s'). \<forall>o2 \<in> set (ops s') \<union> set (undoStack s').
         opId o1 = opId o2 \<longrightarrow> userId o1 = userId o2"
  proof (intro ballI impI)
    fix o1 o2
    assume m: "o1 \<in> set (ops s') \<union> set (undoStack s')"
      "o2 \<in> set (ops s') \<union> set (undoStack s')" and e: "opId o1 = opId o2"
    from m have m': "o1 = op \<or> o1 \<in> set (ops s) \<union> set (undoStack s)"
       "o2 = op \<or> o2 \<in> set (ops s) \<union> set (undoStack s)" unfolding sets by blast+
    show "userId o1 = userId o2"
    proof (cases "o1 = op \<or> o2 = op")
      case True
      with m' e old o(4) show ?thesis by (metis less_irrefl)
    next
      case False
      with m' inv e show ?thesis unfolding logInv_def by blast
    qed
  qed
  have i3: "mset (userOpsOf s' v) =
            image_mset opId (filter_mset (\<lambda>o1. userId o1 = v) (mset (ops s')))" for v
    using inv unfolding logInv_def by (cases "v = u") (simp_all add: o userOpsOf_def)
  from i1 i2 i3 have "logInv s'" unfolding logInv_def by blast
  with a show ?thesis by simp
qed

lemma undo_author:
  assumes inv: "logInv s" and u: "undo s u = (s', r)" "success r" "resOp r = Some op"
  shows "userId op = u \<and> op \<in> set (ops s)"
proof -
  from undo_success[OF u(1,2)] u(3) obtain i l where
    il: "i < length (ops s)" "userOperations s u = Some l" "l \<noteq> []"
        "opId (ops s ! i) = last l" "op = ops s ! i"
    by auto
  from il(2) have "userOpsOf s u = l" by (simp add: userOpsOf_def)
  with inv have "mset l = image_mset opId (filter_mset (\<lambda>o1. userId o1 = u) (mset (ops s)))"
    by (auto simp: logInv_def)
  moreover have "last l \<in># mset l" using il(3) by simp
  ultimately obtain o1 where o1: "o1 \<in> set (ops s)" "userId o1 = u" "opId o1 = last l"
    by auto
  have "op \<in> set (ops s)" using il(1,5) by simp
  with inv o1 il(4,5) have "userId op = userId o1"
    unfolding logInv_def by (metis UnI1)
  with o1 \<open>op \<in> set (ops s)\<close> show ?thesis by simp
qed

lemma logInv_undo:
  assumes inv: "logInv s"
  shows "logInv (fst (undo s u))"
proof (cases "success (snd (undo s u))")
  case False
  then have "fst (undo s u) = s" using undo_failed[of s u] by (metis prod.collapse)
  with inv show ?thesis by simp
next
  case True
  obtain s' r where sr: "undo s u = (s', r)" by (cases "undo s u")
  with True have succ: "success r" by simp
  from undo_success[OF sr succ] obtain i l where
    il: "i < length (ops s)" "userOperations s u = Some l" "l \<noteq> []"
        "opId (ops s ! i) = last l" "resOp r = Some (ops s ! i)"
        "s' = s\<lparr>ops := take i (ops s) @ drop (Suc i) (ops s),
                  undoStack := undoStack s @ [ops s ! i],
                  userOperations := (userOperations s)(u \<mapsto> butlast l)\<rparr>"
    by blast
  let ?x = "ops s ! i"
  have xin: "?x \<in> set (ops s)" using il(1) by simp
  from undo_author[OF inv sr succ il(5)] have xu: "userId ?x = u" by simp
  have ops': "ops s' = take i (ops s) @ drop (Suc i) (ops s)"
    and st': "undoStack s' = undoStack s @ [?x]"
    and nx': "nextOpId s' = nextOpId s"
    using il(6) by simp_all
  have sub: "set (ops s') \<union> set (undoStack s') \<subseteq> set (ops s) \<union> set (undoStack s)"
    using set_remove_nth_subset[of i "ops s"] xin by (auto simp: ops' st')
  have mo: "mset (ops s') = mset (ops s) - {#?x#}"
    unfolding ops' by (rule mset_remove_nth[OF il(1)])
  have i1: "\<forall>o1 \<in> set (ops s') \<union> set (undoStack s'). opId o1 < nextOpId s'"
    using inv sub unfolding logInv_def nx' by blast
  have i2: "\<forall>o1 \<in> set (ops s') \<union> set (undoStack s'). \<forall>o2 \<in> set (ops s') \<union> set (undoStack s').
         opId o1 = opId o2 \<longrightarrow> userId o1 = userId o2"
    using inv sub unfolding logInv_def by blast
  have i3: "mset (userOpsOf s' v) =
            image_mset opId (filter_mset (\<lambda>o1. userId o1 = v) (mset (ops s')))" for v
  proof (cases "v = u")
    case True
    have "userOpsOf s' u = butlast l" using il(6) by (simp add: userOpsOf_def)
    moreover have "userOpsOf s u = l" using il(2) by (simp add: userOpsOf_def)
    moreover have "mset (userOpsOf s u) =
        image_mset opId (filter_mset (\<lambda>o1. userId o1 = u) (mset (ops s)))"
      using inv by (simp add: logInv_def)
    moreover have "image_mset opId (filter_mset (\<lambda>o1. userId o1 = u) (mset (ops s) - {#?x#}))
        = image_mset opId (filter_mset (\<lambda>o1. userId o1 = u) (mset (ops s))) - {#opId ?x#}"
      using xin xu by (simp add: filter_diff_mset image_mset_Diff)
    ultimately show ?thesis using True il(3,4) mo by (simp add: mset_butlast)
  next
    case False
    have "userOpsOf s' v = userOpsOf s v" using il(6) False by (simp add: userOpsOf_def)
    moreover have "filter_mset (\<lambda>o1. userId o1 = v) (mset (ops s) - {#?x#})
        = filter_mset (\<lambda>o1. userId o1 = v) (mset (ops s))"
      using xu False by (simp add: filter_diff_mset)
    ultimately show ?thesis using inv mo by (simp add: logInv_def)
  qed
  from i1 i2 i3 have "logInv s'" unfolding logInv_def by blast
  with sr show ?thesis by simp
qed

lemma logInv_redo:
  assumes inv: "logInv s"
  shows "logInv (fst (redo s u))"
proof (cases "success (snd (redo s u))")
  case False
  then have "fst (redo s u) = s" using redo_failed_state[of s u] by (metis prod.collapse)
  with inv show ?thesis by simp
next
  case True
  obtain s' r where sr: "redo s u = (s', r)" by (cases "redo s u")
  with True have succ: "success r" by simp
  from redo_success[OF sr succ] obtain op where
    op: "latestUndoOf (undoStack s) (length (undoStack s)) u = Some op"
    and s': "s' = s\<lparr>ops := take (insertIndexFrom (ops s) (length (ops s)) (timestamp op)) (ops s) @ [op] @
                         drop (insertIndexFrom (ops s) (length (ops s)) (timestamp op)) (ops s),
                  undoStack := butlast (undoStack s),
                  userOperations := (userOperations s)(u \<mapsto> userOpsOf s u @ [opId op])\<rparr>"
    by blast
  from latestUndoOf_Some[OF op] have opin: "op \<in> set (undoStack s)" and opu: "userId op = u"
    by auto
  let ?k = "insertIndexFrom (ops s) (length (ops s)) (timestamp op)"
  have ops': "ops s' = take ?k (ops s) @ [op] @ drop ?k (ops s)"
    and st': "undoStack s' = butlast (undoStack s)"
    and nx': "nextOpId s' = nextOpId s"
    using s' by simp_all
  have so: "set (ops s') = insert op (set (ops s))"
    unfolding ops' by (rule set_insert_at)
  have sub: "set (ops s') \<union> set (undoStack s') \<subseteq> set (ops s) \<union> set (undoStack s)"
    using opin so by (auto simp: st' dest: in_set_butlastD)
  have mo: "mset (ops s') = add_mset op (mset (ops s))"
    unfolding ops' by (rule mset_insert_at)
  have i1: "\<forall>o1 \<in> set (ops s') \<union> set (undoStack s'). opId o1 < nextOpId s'"
    using inv sub unfolding logInv_def nx' by blast
  have i2: "\<forall>o1 \<in> set (ops s') \<union> set (undoStack s'). \<forall>o2 \<in> set (ops s') \<union> set (undoStack s').
         opId o1 = opId o2 \<longrightarrow> userId o1 = userId o2"
    using inv sub unfolding logInv_def by blast
  have i3: "mset (userOpsOf s' v) =
            image_mset opId (filter_mset (\<lambda>o1. userId o1 = v) (mset (ops s')))" for v
    using inv opu s' mo by (cases "v = u") (simp_all add: logInv_def userOpsOf_def)
  from i1 i2 i3 have "logInv s'" unfolding logInv_def by blast
  with sr show ?thesis by simp
qed

lemma logInv_step: "logInv s \<Longrightarrow> logInv (step s c)"
  by (cases c) (simp_all add: logInv_addOperation logInv_undo logInv_redo)

lemma logInv_foldl: "logInv s \<Longrightarrow> logInv (foldl step s calls)"
  by (induction calls arbitrary: s) (simp_all add: logInv_step)

lemma logInv_run: "logInv (run calls)"
  by (simp add: run_def logInv_foldl logInv_new)

lemma logInv_own_ops:
  assumes "logInv s"
  shows "userOpsOf s u \<noteq> [] \<longleftrightarrow> (\<exists>o1\<in>set (ops s). userId o1 = u)"
proof -
  from assms have "mset (userOpsOf s u) =
      image_mset opId (filter_mset (\<lambda>o1. userId o1 = u) (mset (ops s)))"
    by (simp add: logInv_def)
  then have "(mset (userOpsOf s u) = {#}) = (filter_mset (\<lambda>o1. userId o1 = u) (mset (ops s)) = {#})"
    by simp
  then show ?thesis by (auto simp: filter_mset_eq_conv)
qed

lemma undo_success_iff:
  assumes inv: "logInv s"
  shows "success (snd (undo s u)) \<longleftrightarrow> (\<exists>o1\<in>set (ops s). userId o1 = u)"
proof
  assume "success (snd (undo s u))"
  with undo_success[of s u "fst (undo s u)" "snd (undo s u)"]
  have "userOpsOf s u \<noteq> []" by (auto simp: userOpsOf_def)
  with logInv_own_ops[OF inv] show "\<exists>o1\<in>set (ops s). userId o1 = u" by simp
next
  assume "\<exists>o1\<in>set (ops s). userId o1 = u"
  with logInv_own_ops[OF inv] have ne: "userOpsOf s u \<noteq> []" by simp
  then have "last (userOpsOf s u) \<in># mset (userOpsOf s u)" by simp
  with inv have "last (userOpsOf s u) \<in>#
      image_mset opId (filter_mset (\<lambda>o1. userId o1 = u) (mset (ops s)))"
    by (simp add: logInv_def)
  then obtain o1 where "o1 \<in> set (ops s)" "opId o1 = last (userOpsOf s u)" by auto
  with ne have "getUserLastOp s u \<noteq> None" by (auto simp: getUserLastOp_None)
  with undo_failed[of s u "fst (undo s u)" "snd (undo s u)"]
  show "success (snd (undo s u))" by auto
qed

subsection \<open>Rounding to a double\<close>

lemma roundHalfEven_of_int: "roundHalfEven (of_int m) = m"
  by (simp add: roundHalfEven_def)

lemma two_pow_53_below_overflow: "(2::real) ^ 53 < 2 powr 1024"
proof -
  have "(2::real) powr 53 < 2 powr 1024" by (rule powr_less_mono) simp_all
  moreover have "(2::real) powr 53 = 2 ^ 53"
    using powr_realpow[of "2::real" 53] by simp
  ultimately show ?thesis by simp
qed

text \<open>Integers of magnitude below \<open>2 ^ 53\<close> are doubles: rounding leaves them alone.\<close>

lemma binary64_of_int:
  assumes "\<bar>n\<bar> < 2 ^ 53"
  shows "binary64 (of_int n) = Num (of_int n)"
proof (cases "n = 0")
  case True
  have "(0::real) < 2 powr 1024" by simp
  then show ?thesis using True
    by (simp add: binary64_def roundHalfEven_def Let_def)
next
  case False
  let ?x = "of_int n :: real"
  have ax: "\<bar>?x\<bar> = of_int \<bar>n\<bar>" by simp
  have "1 \<le> \<bar>n\<bar>" using False by simp
  then have ge1: "1 \<le> \<bar>?x\<bar>" unfolding ax by (simp only: of_int_1_le_iff)
  have "(of_int \<bar>n\<bar> :: real) < of_int (2 ^ 53)" using assms by (simp only: of_int_less_iff)
  then have lt: "\<bar>?x\<bar> < 2 ^ 53" unfolding ax by simp
  have small: "(2::real) powr (-1022) < 1" by (simp add: powr_less_one)
  have nsub: "\<not> \<bar>?x\<bar> < 2 powr (-1022)" using ge1 small by linarith
  define e where "e = \<lfloor>log 2 \<bar>?x\<bar>\<rfloor>"
  have e0: "0 \<le> e" unfolding e_def using ge1 by simp
  have "log 2 \<bar>?x\<bar> < log 2 (2 ^ 53)" using lt ge1 by simp
  then have "log 2 \<bar>?x\<bar> < 53" using log_pow_cancel[of "2::real" 53] by simp
  then have e52: "e \<le> 52" unfolding e_def by linarith
  define k where "k = nat (52 - e)"
  have ek: "e - 52 = - int k" using e52 by (simp add: k_def)
  have ulp: "(2::real) powr of_int (e - 52) = 1 / 2 ^ k"
    unfolding ek using powr_realpow[of "2::real" k] by (simp add: powr_minus inverse_eq_divide)
  have q: "?x / (1 / 2 ^ k) = of_int (n * 2 ^ k)" by simp
  have r: "of_int (roundHalfEven (?x / (1 / 2 ^ k))) * (1 / 2 ^ k) = ?x"
    unfolding q roundHalfEven_of_int by simp
  have b1: "\<not> 2 powr 1024 \<le> ?x" using lt two_pow_53_below_overflow by linarith
  have b2: "\<not> ?x \<le> - (2 powr 1024)" using lt two_pow_53_below_overflow by linarith
  show ?thesis
    using nsub b1 b2 r ulp
    by (simp add: binary64_def Let_def e_def del: of_int_mult of_int_power)
qed

lemma binary64_numeral:
  "numeral w < (9007199254740992::int) \<Longrightarrow> binary64 (numeral w) = Num (numeral w)"
  using binary64_of_int[of "numeral w"] by simp

lemma binary64_0: "binary64 0 = Num 0"
  using binary64_of_int[of 0] by simp

lemma binary64_1: "binary64 1 = Num 1"
  using binary64_of_int[of 1] by simp

text \<open>
  From \<open>2 ^ 53\<close> to \<open>2 ^ 54\<close> the doubles are the even integers: an odd integer there
  lies halfway between two of them and rounds to the one with the even significand.
\<close>

lemma binary64_odd_above_2_pow_53:
  assumes "2 ^ 52 \<le> m" and "m < 2 ^ 53"
  shows "binary64 (of_int (2 * m + 1)) = Num (of_int (if even m then 2 * m else 2 * m + 2))"
proof -
  let ?x = "of_int (2 * m + 1) :: real"
  have p53: "(2::real) powr 53 = 2 ^ 53" using powr_realpow[of "2::real" 53] by simp
  have p54: "(2::real) powr 54 = 2 ^ 54" using powr_realpow[of "2::real" 54] by simp
  have "(of_int (2 ^ 53) :: real) \<le> of_int (2 * m + 1)"
    using assms(1) by (simp only: of_int_le_iff) simp
  then have lo: "(2::real) ^ 53 \<le> ?x" by simp
  have "(of_int (2 * m + 1) :: real) < of_int (2 ^ 54)"
    using assms(2) by (simp only: of_int_less_iff) simp
  then have hi: "?x < 2 ^ 54" by simp
  have pos: "0 < ?x" using lo by simp
  have "\<lfloor>log 2 ?x\<rfloor> = 53"
    using floor_log_eq_powr_iff[of ?x 2 53] p53 p54 lo hi pos by simp
  moreover have ax: "\<bar>?x\<bar> = ?x" using pos by simp
  ultimately have e: "\<lfloor>log 2 \<bar>?x\<bar>\<rfloor> - 52 = 1" by simp
  have small: "(2::real) powr (-1022) < 1" by (simp add: powr_less_one)
  have nsub: "\<not> \<bar>?x\<bar> < 2 powr (-1022)" using lo small ax by simp
  have q: "?x / 2 = of_int m + 1 / 2" by simp
  have fl: "\<lfloor>of_int m + (1 / 2 :: real)\<rfloor> = m" by linarith
  have rh: "roundHalfEven (?x / 2) = (if even m then m else m + 1)"
    unfolding q by (simp add: roundHalfEven_def Let_def fl)
  let ?r = "of_int (if even m then 2 * m else 2 * m + 2) :: real"
  have r: "of_int (roundHalfEven (?x / 2)) * 2 = ?r" unfolding rh by simp
  have "?r \<le> ?x + 1" by simp
  then have rle: "?r \<le> 2 ^ 54" using hi assms(2)
  proof -
    have "(if even m then 2 * m else 2 * m + 2) \<le> 2 * m + 2" by simp
    also have "\<dots> \<le> 2 ^ 54" using assms(2) by simp
    finally have "(of_int (if even m then 2 * m else 2 * m + 2) :: real) \<le> of_int (2 ^ 54)"
      by (simp only: of_int_le_iff)
    then show ?thesis by simp
  qed
  have "(2::real) powr 54 < 2 powr 1024" by (rule powr_less_mono) simp_all
  with p54 have big: "(2::real) ^ 54 < 2 powr 1024" by simp
  have b1: "\<not> 2 powr 1024 \<le> ?r" using rle big by linarith
  have "0 \<le> ?r" using assms(1) by simp
  moreover have "(0::real) < 2 powr 1024" by simp
  ultimately have b2: "\<not> ?r \<le> - (2 powr 1024)" by linarith
  have ulp: "(2::real) powr of_int (\<lfloor>log 2 \<bar>?x\<bar>\<rfloor> - 52) = 2" unfolding e by simp
  show ?thesis
    unfolding binary64_def Let_def
    using nsub b1 b2 r ulp by (simp del: of_int_add of_int_mult)
qed

lemma binary64_2_pow_53_plus_3: "binary64 9007199254740995 = Num 9007199254740996"
  using binary64_odd_above_2_pow_53[of 4503599627370497] by simp

lemma binary64_2_pow_53_plus_5: "binary64 9007199254740997 = Num 9007199254740996"
  using binary64_odd_above_2_pow_53[of 4503599627370498] by simp

text \<open>
  The double nearest to 0.7 plus 4 is the double nearest to 4.7, although the exact sum
  is smaller.
\<close>

lemma binary64_0_7_plus_4:
  "js_add (Num (6305039478318694 / 9007199254740992)) (Num 4) =
     Num (5291729562160333 / 1125899906842624)"
proof -
  define x :: real where "x = 42333836497282662 / 9007199254740992"
  define ulp :: real where "ulp = 2 powr of_int (\<lfloor>log 2 \<bar>x\<bar>\<rfloor> - 52)"
  define r :: real where "r = of_int (roundHalfEven (x / ulp)) * ulp"
  have p2: "(2::real) powr 2 = 2 ^ 2" using powr_realpow[of "2::real" 2] by simp
  have p3: "(2::real) powr 3 = 2 ^ 3" using powr_realpow[of "2::real" 3] by simp
  have x48: "4 \<le> x" "x < 8" by (simp_all add: x_def)
  then have ax: "\<bar>x\<bar> = x" by simp
  have "\<lfloor>log 2 x\<rfloor> = 2"
    using floor_log_eq_powr_iff[of x 2 2] p2 p3 x48 by simp
  then have e: "\<lfloor>log 2 \<bar>x\<bar>\<rfloor> - 52 = - 50" using ax by simp
  have small: "(2::real) powr (-1022) < 1" by (simp add: powr_less_one)
  then have nsub: "\<not> \<bar>x\<bar> < 2 powr (-1022)" using x48 ax by linarith
  have ulp: "ulp = 1 / 2 ^ 50"
    unfolding ulp_def e using powr_realpow[of "2::real" 50]
    by (simp add: powr_minus inverse_eq_divide)
  have q: "x / ulp = 42333836497282662 / 8" unfolding ulp x_def by simp
  have "roundHalfEven (42333836497282662 / 8) = 5291729562160333"
    by (simp add: roundHalfEven_def Let_def)
  then have "roundHalfEven (x / ulp) = 5291729562160333" by (simp only: q)
  then have r: "r = 5291729562160333 / 1125899906842624" unfolding r_def ulp by simp
  have "(2::real) powr 3 < 2 powr 1024" by (rule powr_less_mono) simp_all
  with p3 have big: "(8::real) < 2 powr 1024" by simp
  have "0 < r" "r < 8" unfolding r by simp_all
  with big have b: "\<not> 2 powr 1024 \<le> r" "\<not> r \<le> - (2 powr 1024)" by linarith+
  have "binary64 x = Num r"
    unfolding binary64_def Let_def ulp_def[symmetric] r_def[symmetric]
    using nsub b by (simp only: if_False ulp_def[symmetric] r_def[symmetric])
  moreover have "(6305039478318694 / 9007199254740992 :: real) + 4 = x" by (simp add: x_def)
  ultimately show ?thesis by (simp only: js_add.simps r)
qed

subsection \<open>Bounding boxes\<close>

lemma fold_bbox_Num:
  "\<forall>pt\<in>set pth. finitePoint pt \<Longrightarrow>
   fold (\<lambda>pt b. \<lparr>minX = js_min (minX b) (p_x pt), maxX = js_max (maxX b) (p_x pt),
                  minY = js_min (minY b) (p_y pt), maxY = js_max (maxY b) (p_y pt)\<rparr>) pth
        \<lparr>minX = Num a, maxX = Num b, minY = Num c, maxY = Num d\<rparr>
   = \<lparr>minX = Num (Min (insert a ((\<lambda>pt. numOf (p_x pt)) ` set pth))),
      maxX = Num (Max (insert b ((\<lambda>pt. numOf (p_x pt)) ` set pth))),
      minY = Num (Min (insert c ((\<lambda>pt. numOf (p_y pt)) ` set pth))),
      maxY = Num (Max (insert d ((\<lambda>pt. numOf (p_y pt)) ` set pth)))\<rparr>"
proof (induction pth arbitrary: a b c d)
  case Nil
  then show ?case by simp
next
  case (Cons p ps)
  have m: "\<And>v w S. finite S \<Longrightarrow> Min (insert (min v w) S) = Min (insert v (insert w S))"
    by (metis Min_insert Min_singleton finite.insertI insert_not_empty min.assoc)
  have M: "\<And>v w S. finite S \<Longrightarrow> Max (insert (max v w) S) = Max (insert v (insert w S))"
    by (metis Max_insert Max_singleton finite.insertI insert_not_empty max.assoc)
  from Cons.prems have "finite_num (p_x p)" "finite_num (p_y p)"
    by (simp_all add: finitePoint_def)
  then obtain vx vy where v: "p_x p = Num vx" "p_y p = Num vy"
    by (cases "p_x p"; cases "p_y p") simp_all
  from Cons.prems have rest: "\<forall>pt\<in>set ps. finitePoint pt" by simp
  show ?case by (simp add: Cons.IH[OF rest] v m M)
qed

lemma getPathBoundingBox_bbox:
  assumes "pth \<noteq> []" and "\<forall>pt\<in>set pth. finitePoint pt"
  shows "getPathBoundingBox pth =
     \<lparr>minX = Num (lo_x (bbox pth)), maxX = Num (hi_x (bbox pth)),
      minY = Num (lo_y (bbox pth)), maxY = Num (hi_y (bbox pth))\<rparr>"
proof -
  from assms(1) obtain p ps where pth: "pth = p # ps" by (cases pth) auto
  from assms(2) pth have "finite_num (p_x p)" "finite_num (p_y p)"
    by (simp_all add: finitePoint_def)
  then obtain vx vy where v: "p_x p = Num vx" "p_y p = Num vy"
    by (cases "p_x p"; cases "p_y p") simp_all
  from assms(2) pth have rest: "\<forall>pt\<in>set ps. finitePoint pt" by simp
  show ?thesis
    by (simp add: pth getPathBoundingBox_def v fold_bbox_Num[OF rest] bbox_def)
qed

lemma redo_conflict:
  assumes "redo s u = (s', r)" "message r = redoConflictMessage"
  shows "s' = s \<and> \<not> success r \<and> canRedo r = Some False \<and>
         (\<exists>cand. latestUndoOf (undoStack s) (length (undoStack s)) u = Some cand \<and>
                 (\<exists>e\<in>set (ops s). timestamp cand < timestamp e \<and> operationsOverlap e cand))"
  using assms
  by (auto simp: redo_def redoFailure_def Let_def redoConflictMessage_def list_ex_iff
           split: if_splits option.splits)

subsection \<open>Evaluating concrete scenarios\<close>

lemmas log_eval =
  run_def newDrawingState_def addOperation_def undo_def redo_def redoFailure_def
  getUserLastOp_def userOpsOf_def hasUserOps_def operationsOverlap_def
  getPathBoundingBox_def widthOr4_def strokeRaw_def stroke_def Let_def
  binary64_numeral binary64_0 binary64_1

lemmas server_eval =
  connect_def newServer_def findBySocket_def addClient_def removeClient_def newRoom_def
  broadcastRoom_def openClients_def clientUsers_def getActiveUsers_def stateUpdates_def
  getSnapshot_def notInRoom_def validPoints_def

section \<open>The operation log\<close>

text \<open>
  C1, as stated, fails: when two authors' operations carry the same timestamp (both
  added within one millisecond), the earlier one comes back behind the later one.
\<close>

theorem undo_redo_reorders_equal_timestamps:
  "success (snd (undo (run [AddOperation ''A'' (strokeRaw 0 0 10 0) 5,
                            AddOperation ''B'' (strokeRaw 100 100 110 100) 5]) ''A'')) \<and>
   success (snd (redo (run [AddOperation ''A'' (strokeRaw 0 0 10 0) 5,
                            AddOperation ''B'' (strokeRaw 100 100 110 100) 5,
                            UndoCall ''A'']) ''A'')) \<and>
   map opId (ops (run [AddOperation ''A'' (strokeRaw 0 0 10 0) 5,
                       AddOperation ''B'' (strokeRaw 100 100 110 100) 5])) = [1, 2] \<and>
   map opId (ops (run [AddOperation ''A'' (strokeRaw 0 0 10 0) 5,
                       AddOperation ''B'' (strokeRaw 100 100 110 100) 5,
                       UndoCall ''A'', RedoCall ''A''])) = [2, 1]"
  by (simp add: log_eval)

text \<open>
  C1, amended.  Take a log reached from a fresh one whose \<open>ops\<close> carry strictly
  ascending timestamps, and an author whose \<open>undo\<close> succeeds and whose \<open>redo\<close>, issued
  next, succeeds too.  If the undone operation was not the first of several operations
  of \<open>ops\<close>, the \<open>ops\<close> sequence after the \<open>redo\<close> is the sequence before the \<open>undo\<close>,
  and so are \<open>undoStack\<close> and the author's index.
\<close>

theorem undo_redo_restores_ops:
  assumes "s = run calls"
    and "sorted_wrt (<) (map timestamp (ops s))"
    and "undo s u = (s1, r1)" and "success r1"
    and "redo s1 u = (s2, r2)" and "success r2"
    and "resOp r1 \<noteq> Some (hd (ops s)) \<or> length (ops s) = 1"
  shows "ops s2 = ops s \<and> undoStack s2 = undoStack s \<and> userOpsOf s2 u = userOpsOf s u"
proof -
  have inv: "logInv s" using assms(1) logInv_run by simp
  from undo_success[OF assms(3,4)] obtain i l where
    il: "i < length (ops s)" "userOperations s u = Some l" "l \<noteq> []"
        "opId (ops s ! i) = last l" "resOp r1 = Some (ops s ! i)"
        "s1 = s\<lparr>ops := take i (ops s) @ drop (Suc i) (ops s),
                  undoStack := undoStack s @ [ops s ! i],
                  userOperations := (userOperations s)(u \<mapsto> butlast l)\<rparr>"
    by blast
  let ?xs = "ops s"
  let ?x = "?xs ! i"
  let ?ys = "take i ?xs @ drop (Suc i) ?xs"
  have xu: "userId ?x = u" using undo_author[OF inv assms(3,4) il(5)] by simp
  have ops1: "ops s1 = ?ys" and st1: "undoStack s1 = undoStack s @ [?x]"
    and ix1: "userOpsOf s1 u = butlast l"
    using il(6) by (simp_all add: userOpsOf_def)
  have len: "length ?ys = length ?xs - 1" using il(1) by simp
  from redo_success[OF assms(5,6)] obtain op where
    op: "latestUndoOf (undoStack s1) (length (undoStack s1)) u = Some op"
    and s2: "s2 = s1\<lparr>ops := take (insertIndexFrom (ops s1) (length (ops s1)) (timestamp op)) (ops s1)
                           @ [op] @
                           drop (insertIndexFrom (ops s1) (length (ops s1)) (timestamp op)) (ops s1),
                  undoStack := butlast (undoStack s1),
                  userOperations := (userOperations s1)(u \<mapsto> userOpsOf s1 u @ [opId op])\<rparr>"
    by blast
  have "latestUndoOf (undoStack s1) (length (undoStack s1)) u = Some ?x"
    unfolding st1 using xu by (rule latestUndoOf_top)
  with op have opx: "op = ?x" by simp
  have strict: "timestamp (?xs ! a) < timestamp (?xs ! b)" if "a < b" "b < length ?xs" for a b
    using sorted_wrt_nth_less[OF assms(2), of a b] that by simp
  have later: "\<forall>j. i \<le> j \<and> j < length ?ys \<longrightarrow> timestamp ?x < timestamp (?ys ! j)"
  proof (intro allI impI)
    fix j assume j: "i \<le> j \<and> j < length ?ys"
    with len have j': "j < length ?xs - 1" "Suc j < length ?xs" "i < Suc j" by linarith+
    have "?ys ! j = ?xs ! Suc j" using nth_remove_nth[OF il(1) j'(1)] j by simp
    moreover have "timestamp ?x < timestamp (?xs ! Suc j)"
      using strict[OF j'(3) j'(2)] .
    ultimately show "timestamp ?x < timestamp (?ys ! j)" by simp
  qed
  have earlier: "0 < i \<longrightarrow> timestamp (?ys ! (i - 1)) \<le> timestamp ?x"
  proof
    assume i0: "0 < i"
    with il(1) have p: "i - 1 < length ?xs - 1" "i - 1 < i" by linarith+
    have "?ys ! (i - 1) = ?xs ! (i - 1)"
      using nth_remove_nth[OF il(1) p(1)] p(2) by simp
    moreover have "timestamp (?xs ! (i - 1)) < timestamp ?x"
      using strict[OF p(2) il(1)] .
    ultimately show "timestamp (?ys ! (i - 1)) \<le> timestamp ?x" by simp
  qed
  have ile: "i \<le> length ?ys" using il(1) len by linarith
  have k: "insertIndexFrom ?ys (length ?ys) (timestamp ?x) = (if i = 0 then length ?ys else i)"
    using insertIndexFrom_gap[OF ile le_refl later earlier] .
  have ki: "insertIndexFrom ?ys (length ?ys) (timestamp ?x) = i"
  proof (cases "i = 0")
    case False
    with k show ?thesis by simp
  next
    case True
    have "?xs \<noteq> []" using il(1) by auto
    then have "hd ?xs = ?xs ! 0" by (simp add: hd_conv_nth)
    with True il(5) assms(7) have "length ?xs = 1" by simp
    with True k len show ?thesis by simp
  qed
  have tk: "take i ?ys = take i ?xs" using il(1) by simp
  have dr: "drop i ?ys = drop (Suc i) ?xs" using il(1) by simp
  have "ops s2 = take i ?ys @ [?x] @ drop i ?ys"
    using s2 opx ops1 ki by simp
  also have "\<dots> = take i ?xs @ ?x # drop (Suc i) ?xs" using tk dr by simp
  also have "\<dots> = ?xs" using id_take_nth_drop[OF il(1)] by simp
  finally have a: "ops s2 = ops s" .
  have b: "undoStack s2 = undoStack s" using s2 st1 by simp
  have "userOpsOf s2 u = butlast l @ [last l]"
    using s2 ix1 opx il(4) by (simp add: userOpsOf_def)
  also have "\<dots> = l" using il(3) by simp
  also have "\<dots> = userOpsOf s u" using il(2) by (simp add: userOpsOf_def)
  finally have c: "userOpsOf s2 u = userOpsOf s u" .
  from a b c show ?thesis by simp
qed

text \<open>
  A draws at time 1, B draws at time 2, B undoes and redoes: \<open>ops\<close> is again A's
  operation followed by B's.
\<close>

theorem undo_redo_restores_ops_witness:
  "sorted_wrt (<) (map timestamp (ops (run [AddOperation ''A'' (strokeRaw 0 0 10 0) 1,
                       AddOperation ''B'' (strokeRaw 100 100 110 100) 2]))) \<and>
   success (snd (undo (run [AddOperation ''A'' (strokeRaw 0 0 10 0) 1,
                       AddOperation ''B'' (strokeRaw 100 100 110 100) 2]) ''B'')) \<and>
   success (snd (redo (fst (undo (run [AddOperation ''A'' (strokeRaw 0 0 10 0) 1,
                       AddOperation ''B'' (strokeRaw 100 100 110 100) 2]) ''B'')) ''B'')) \<and>
   ops (fst (redo (fst (undo (run [AddOperation ''A'' (strokeRaw 0 0 10 0) 1,
                       AddOperation ''B'' (strokeRaw 100 100 110 100) 2]) ''B'')) ''B''))
     = ops (run [AddOperation ''A'' (strokeRaw 0 0 10 0) 1,
                 AddOperation ''B'' (strokeRaw 100 100 110 100) 2])"
  using undo_redo_restores_ops[of
      "run [AddOperation ''A'' (strokeRaw 0 0 10 0) 1,
            AddOperation ''B'' (strokeRaw 100 100 110 100) 2]"
      "[AddOperation ''A'' (strokeRaw 0 0 10 0) 1,
        AddOperation ''B'' (strokeRaw 100 100 110 100) 2]"
      "''B''"
      "fst (undo (run [AddOperation ''A'' (strokeRaw 0 0 10 0) 1,
                       AddOperation ''B'' (strokeRaw 100 100 110 100) 2]) ''B'')"
      "snd (undo (run [AddOperation ''A'' (strokeRaw 0 0 10 0) 1,
                       AddOperation ''B'' (strokeRaw 100 100 110 100) 2]) ''B'')"
      "fst (redo (fst (undo (run [AddOperation ''A'' (strokeRaw 0 0 10 0) 1,
                       AddOperation ''B'' (strokeRaw 100 100 110 100) 2]) ''B'')) ''B'')"
      "snd (redo (fst (undo (run [AddOperation ''A'' (strokeRaw 0 0 10 0) 1,
                       AddOperation ''B'' (strokeRaw 100 100 110 100) 2]) ''B'')) ''B'')"]
  by (simp add: log_eval)

text \<open>
  C2.  In every log reached from a fresh one, \<open>undo\<close> by an author succeeds exactly when
  that author has an operation in \<open>ops\<close>.  When it succeeds it removes one operation, the
  one whose identity is last in the author's index (the author's most recently applied
  one); that operation is authored by the requester, is pushed on \<open>undoStack\<close> and is
  popped from the index.  The operations of all other authors stay in \<open>ops\<close>, in their
  order, wherever they stand.  When the author has no applied operation the call fails
  with \<open>Nothing to undo\<close> and leaves the log as it was.
\<close>

theorem undo_removes_own_latest:
  assumes "s = run calls" and "undo s u = (s', r)"
  shows "(success r \<longleftrightarrow> (\<exists>o1\<in>set (ops s). userId o1 = u)) \<and>
         (success r \<longrightarrow>
            (\<exists>i<length (ops s).
                resOp r = Some (ops s ! i) \<and> userId (ops s ! i) = u \<and>
                opId (ops s ! i) = last (userOpsOf s u) \<and>
                ops s' = take i (ops s) @ drop (Suc i) (ops s) \<and>
                undoStack s' = undoStack s @ [ops s ! i] \<and>
                userOpsOf s' u = butlast (userOpsOf s u))) \<and>
         filter (\<lambda>o1. userId o1 \<noteq> u) (ops s') = filter (\<lambda>o1. userId o1 \<noteq> u) (ops s) \<and>
         (\<not> success r \<longrightarrow> message r = ''Nothing to undo'' \<and> s' = s)"
proof -
  have inv: "logInv s" using assms(1) logInv_run by simp
  have a: "success r \<longleftrightarrow> (\<exists>o1\<in>set (ops s). userId o1 = u)"
    using undo_success_iff[OF inv, of u] assms(2) by simp
  have d: "\<not> success r \<longrightarrow> message r = ''Nothing to undo'' \<and> s' = s"
    using undo_failed[OF assms(2)] by simp
  have bc: "(success r \<longrightarrow>
            (\<exists>i<length (ops s).
                resOp r = Some (ops s ! i) \<and> userId (ops s ! i) = u \<and>
                opId (ops s ! i) = last (userOpsOf s u) \<and>
                ops s' = take i (ops s) @ drop (Suc i) (ops s) \<and>
                undoStack s' = undoStack s @ [ops s ! i] \<and>
                userOpsOf s' u = butlast (userOpsOf s u))) \<and>
         filter (\<lambda>o1. userId o1 \<noteq> u) (ops s') = filter (\<lambda>o1. userId o1 \<noteq> u) (ops s)"
  proof (cases "success r")
    case False
    with d show ?thesis by simp
  next
    case True
    from undo_success[OF assms(2) True] obtain i l where
      il: "i < length (ops s)" "userOperations s u = Some l" "l \<noteq> []"
          "opId (ops s ! i) = last l" "resOp r = Some (ops s ! i)"
          "s' = s\<lparr>ops := take i (ops s) @ drop (Suc i) (ops s),
                    undoStack := undoStack s @ [ops s ! i],
                    userOperations := (userOperations s)(u \<mapsto> butlast l)\<rparr>"
      by blast
    from undo_author[OF inv assms(2) True il(5)] have xu: "userId (ops s ! i) = u" by simp
    have l: "userOpsOf s u = l" using il(2) by (simp add: userOpsOf_def)
    have f: "filter (\<lambda>o1. userId o1 \<noteq> u) (ops s') = filter (\<lambda>o1. userId o1 \<noteq> u) (ops s)"
      using filter_remove_nth[OF il(1), of "\<lambda>o1. userId o1 \<noteq> u"] xu il(6) by simp
    have "resOp r = Some (ops s ! i) \<and> userId (ops s ! i) = u \<and>
                opId (ops s ! i) = last (userOpsOf s u) \<and>
                ops s' = take i (ops s) @ drop (Suc i) (ops s) \<and>
                undoStack s' = undoStack s @ [ops s ! i] \<and>
                userOpsOf s' u = butlast (userOpsOf s u)"
      using il xu l by (simp add: userOpsOf_def)
    with il(1) f show ?thesis by blast
  qed
  from a bc d show ?thesis by blast
qed

text \<open>
  The scenario of C2 with another author's operation globally last: A draws, then B
  draws; A's \<open>undo\<close> removes A's operation and leaves B's.
\<close>

theorem undo_removes_own_latest_witness:
  "success (snd (undo (run [AddOperation ''A'' (strokeRaw 0 0 10 0) 1,
                            AddOperation ''B'' (strokeRaw 100 100 110 100) 2]) ''A'')) \<and>
   map userId (ops (fst (undo (run [AddOperation ''A'' (strokeRaw 0 0 10 0) 1,
                            AddOperation ''B'' (strokeRaw 100 100 110 100) 2]) ''A''))) = [''B''] \<and>
   map userId (undoStack (fst (undo (run [AddOperation ''A'' (strokeRaw 0 0 10 0) 1,
                            AddOperation ''B'' (strokeRaw 100 100 110 100) 2]) ''A''))) = [''A''] \<and>
   \<not> success (snd (undo (run [AddOperation ''B'' (strokeRaw 100 100 110 100) 2]) ''A''))"
  using undo_removes_own_latest[of
      "run [AddOperation ''A'' (strokeRaw 0 0 10 0) 1,
            AddOperation ''B'' (strokeRaw 100 100 110 100) 2]"
      "[AddOperation ''A'' (strokeRaw 0 0 10 0) 1,
        AddOperation ''B'' (strokeRaw 100 100 110 100) 2]" "''A''"
      "fst (undo (run [AddOperation ''A'' (strokeRaw 0 0 10 0) 1,
                       AddOperation ''B'' (strokeRaw 100 100 110 100) 2]) ''A'')"
      "snd (undo (run [AddOperation ''A'' (strokeRaw 0 0 10 0) 1,
                       AddOperation ''B'' (strokeRaw 100 100 110 100) 2]) ''A'')"]
  by (simp add: log_eval)

text \<open>
  C3.  When \<open>redo\<close> fails because a newer overlapping operation exists, the log it
  returns is the log it was given (\<open>ops\<close>, \<open>undoStack\<close>, the index and \<open>nextOpId\<close>),
  and the requester's undone operation is still on \<open>undoStack\<close>, so the same \<open>redo\<close> can
  be attempted again.
\<close>

theorem redo_conflict_state_unchanged:
  assumes "redo s u = (s', r)" and "message r = redoConflictMessage"
  shows "s' = s \<and> \<not> success r \<and> ownUndone s' u"
proof -
  from redo_conflict[OF assms] obtain cand where
    c: "s' = s" "\<not> success r"
       "latestUndoOf (undoStack s) (length (undoStack s)) u = Some cand"
    by blast
  from latestUndoOf_Some[OF c(3)] have "cand \<in> set (undoStack s)" "userId cand = u" by auto
  then have "ownUndone s u" by (auto simp: ownUndone_def list_ex_iff)
  with c show ?thesis by simp
qed

text \<open>
  The scenario of C3: A draws, B draws over it, A undoes; A's \<open>redo\<close> fails with the
  conflict and changes nothing; once B has undone the overlapping stroke, A's \<open>redo\<close>
  succeeds.
\<close>

theorem redo_conflict_state_unchanged_witness:
  "message (snd (redo (run [AddOperation ''A'' (strokeRaw 0 0 10 0) 1,
                            AddOperation ''B'' (strokeRaw 5 0 15 0) 2,
                            UndoCall ''A'']) ''A'')) = redoConflictMessage \<and>
   fst (redo (run [AddOperation ''A'' (strokeRaw 0 0 10 0) 1,
                   AddOperation ''B'' (strokeRaw 5 0 15 0) 2,
                   UndoCall ''A'']) ''A'')
     = run [AddOperation ''A'' (strokeRaw 0 0 10 0) 1,
            AddOperation ''B'' (strokeRaw 5 0 15 0) 2,
            UndoCall ''A''] \<and>
   success (snd (redo (run [AddOperation ''A'' (strokeRaw 0 0 10 0) 1,
                            AddOperation ''B'' (strokeRaw 5 0 15 0) 2,
                            UndoCall ''A'', RedoCall ''A'', UndoCall ''B'']) ''A''))"
  using redo_conflict_state_unchanged[of
      "run [AddOperation ''A'' (strokeRaw 0 0 10 0) 1,
            AddOperation ''B'' (strokeRaw 5 0 15 0) 2, UndoCall ''A'']" "''A''"
      "fst (redo (run [AddOperation ''A'' (strokeRaw 0 0 10 0) 1,
                       AddOperation ''B'' (strokeRaw 5 0 15 0) 2, UndoCall ''A'']) ''A'')"
      "snd (redo (run [AddOperation ''A'' (strokeRaw 0 0 10 0) 1,
                       AddOperation ''B'' (strokeRaw 5 0 15 0) 2, UndoCall ''A'']) ''A'')"]
  by (simp add: log_eval redoConflictMessage_def)

text \<open>
  C4 fails on the code.  A draws at time 1, B draws elsewhere at time 2, A undoes and
  redoes: the scan for the insertion point finds no element with a timestamp \<open>\<le> 1\<close>,
  the index keeps its initial value \<open>ops.length\<close>, and A's operation is put back after
  B's.
\<close>

theorem redo_breaks_timestamp_order:
  "map timestamp (ops (run [AddOperation ''A'' (strokeRaw 0 0 10 0) 1,
                            AddOperation ''B'' (strokeRaw 100 100 110 100) 2,
                            UndoCall ''A'', RedoCall ''A''])) = [2, 1] \<and>
   \<not> sorted (map timestamp (ops (run [AddOperation ''A'' (strokeRaw 0 0 10 0) 1,
                            AddOperation ''B'' (strokeRaw 100 100 110 100) 2,
                            UndoCall ''A'', RedoCall ''A''])))"
  by (simp add: log_eval)

text \<open>
  C5, as stated, fails: two \<open>addOperation\<close> calls during which \<open>Date.now()\<close> returns
  the same millisecond assign equal timestamps.
\<close>

theorem addOperation_equal_timestamps:
  "\<not> (timestamp (snd (addOperation newDrawingState (''A'', strokeRaw 0 0 10 0) 5))
        < timestamp (snd (addOperation
                            (fst (addOperation newDrawingState (''A'', strokeRaw 0 0 10 0) 5))
                            (''B'', strokeRaw 0 5 10 5) 5)))"
  by (simp add: addOperation_def Let_def)

text \<open>
  C5, amended.  Every \<open>addOperation\<close> call gives the new operation the value of
  \<open>Date.now()\<close> during the call as its timestamp, so the timestamp exceeds an earlier one
  exactly when the clock has advanced in between; and it gives the operation the next
  identity, counted from 1, which is strictly greater than every identity assigned
  before by that log.
\<close>

theorem addOperation_timestamp_is_clock:
  "map timestamp (addedOps newDrawingState calls) = clockReadings calls \<and>
   map opId (addedOps newDrawingState calls) = [1 ..< Suc (length (clockReadings calls))] \<and>
   sorted_wrt (<) (map opId (addedOps newDrawingState calls))"
proof -
  have n: "nextOpId newDrawingState = 1" by (simp add: newDrawingState_def)
  from addedOps_from[of newDrawingState calls] n
  have a: "map timestamp (addedOps newDrawingState calls) = clockReadings calls"
    and b: "map opId (addedOps newDrawingState calls) = [1 ..< Suc (length (clockReadings calls))]"
    by simp_all
  have "sorted_wrt (<) [1 ..< Suc (length (clockReadings calls))]"
    by (rule sorted_wrt_upt)
  with a b show ?thesis by (simp del: upt_Suc)
qed

text \<open>
  C6 fails on the code.  The result of a failed \<open>undo\<close> and the result of a successful
  \<open>redo\<close> report \<open>canRedo\<close> as \<open>this.undoStack.length > 0\<close>, which counts the undone
  operations of all users, where \<open>getSnapshot\<close> on the same log filters \<open>undoStack\<close> by
  \<open>userId\<close>.  B, who has undone nothing, is told \<open>canRedo = true\<close> by a failed \<open>undo\<close>
  while only A's operation is on the stack, and again by the successful \<open>redo\<close> of B's
  only undone operation; both times no undone operation authored by B is on
  \<open>undoStack\<close>, and \<open>getSnapshot\<close> for B says \<open>canRedo = false\<close>.
\<close>

theorem canRedo_counts_all_users:
  "\<not> success (snd (undo (run [AddOperation ''A'' (strokeRaw 0 0 10 0) 1,
                              UndoCall ''A'']) ''B'')) \<and>
   canRedo (snd (undo (run [AddOperation ''A'' (strokeRaw 0 0 10 0) 1,
                            UndoCall ''A'']) ''B'')) = Some True \<and>
   \<not> ownUndone (fst (undo (run [AddOperation ''A'' (strokeRaw 0 0 10 0) 1,
                                UndoCall ''A'']) ''B'')) ''B'' \<and>
   \<not> snap_canRedo (getSnapshot (fst (undo (run [AddOperation ''A'' (strokeRaw 0 0 10 0) 1,
                                                UndoCall ''A'']) ''B'')) (Some ''B'')) \<and>
   success (snd (redo (run [AddOperation ''A'' (strokeRaw 0 0 10 0) 1,
                            AddOperation ''B'' (strokeRaw 100 100 110 100) 2,
                            UndoCall ''A'', UndoCall ''B'']) ''B'')) \<and>
   canRedo (snd (redo (run [AddOperation ''A'' (strokeRaw 0 0 10 0) 1,
                            AddOperation ''B'' (strokeRaw 100 100 110 100) 2,
                            UndoCall ''A'', UndoCall ''B'']) ''B'')) = Some True \<and>
   \<not> ownUndone (fst (redo (run [AddOperation ''A'' (strokeRaw 0 0 10 0) 1,
                                AddOperation ''B'' (strokeRaw 100 100 110 100) 2,
                                UndoCall ''A'', UndoCall ''B'']) ''B'')) ''B'' \<and>
   \<not> snap_canRedo (getSnapshot (fst (redo (run [AddOperation ''A'' (strokeRaw 0 0 10 0) 1,
                                AddOperation ''B'' (strokeRaw 100 100 110 100) 2,
                                UndoCall ''A'', UndoCall ''B'']) ''B'')) (Some ''B''))"
  by (simp add: log_eval ownUndone_def getSnapshot_def)

text \<open>
  In general: a failed \<open>undo\<close> and a successful \<open>redo\<close> report whether \<open>undoStack\<close>, as
  they leave it, holds any operation at all.
\<close>

lemma canRedo_is_stack_nonempty:
  "(undo s u = (s1, r1) \<and> \<not> success r1 \<longrightarrow> canRedo r1 = Some (undoStack s1 \<noteq> [])) \<and>
   (redo s v = (s2, r2) \<and> success r2 \<longrightarrow> canRedo r2 = Some (undoStack s2 \<noteq> []))"
proof -
  have a: "canRedo r1 = Some (undoStack s1 \<noteq> [])" if h: "undo s u = (s1, r1)" "\<not> success r1"
  proof -
    from undo_failed[OF h] have "s1 = s" "getUserLastOp s u = None" by simp_all
    with h(1) show ?thesis by (auto simp: undo_def)
  qed
  have b: "canRedo r2 = Some (undoStack s2 \<noteq> [])" if h: "redo s v = (s2, r2)" "success r2"
    using h by (auto simp: redo_def redoFailure_def Let_def split: if_splits option.splits)
  from a b show ?thesis by blast
qed

text \<open>
  The other results are scoped to the requester.  In every log reached from a fresh one,
  a successful \<open>undo\<close> reports \<open>canRedo = true\<close>, and an undone operation of the
  requester is then on \<open>undoStack\<close>; a failed \<open>redo\<close> reports \<open>canRedo = false\<close>, and an
  undone operation of the requester remains on \<open>undoStack\<close> only when the failure is the
  conflict, for which \<open>canRedo\<close> is forced to \<open>false\<close>.
\<close>

lemma canRedo_scoped_results:
  assumes "s = run calls"
  shows "(undo s u = (s1, r1) \<and> success r1 \<longrightarrow> canRedo r1 = Some True \<and> ownUndone s1 u) \<and>
         (redo s v = (s2, r2) \<and> \<not> success r2 \<longrightarrow>
            canRedo r2 = Some False \<and> (ownUndone s2 v \<longleftrightarrow> message r2 = redoConflictMessage))"
proof -
  have inv: "logInv s" using assms logInv_run by simp
  have a: "canRedo r1 = Some True \<and> ownUndone s1 u" if h: "undo s u = (s1, r1)" "success r1"
  proof -
    from undo_success[OF h] obtain i where
      i: "resOp r1 = Some (ops s ! i)" "canRedo r1 = Some True"
         "undoStack s1 = undoStack s @ [ops s ! i]"
      by auto
    from undo_author[OF inv h i(1)] have "userId (ops s ! i) = u" by simp
    with i show ?thesis by (simp add: ownUndone_def)
  qed
  have b: "canRedo r2 = Some False \<and> (ownUndone s2 v \<longleftrightarrow> message r2 = redoConflictMessage)"
    if h: "redo s v = (s2, r2)" "\<not> success r2"
  proof (cases "message r2 = redoConflictMessage")
    case True
    from redo_conflict[OF h(1) True] obtain cand where
      c: "s2 = s" "canRedo r2 = Some False"
         "latestUndoOf (undoStack s) (length (undoStack s)) v = Some cand"
      by blast
    from latestUndoOf_Some[OF c(3)] have "cand \<in> set (undoStack s)" "userId cand = v" by auto
    then have "ownUndone s v" by (auto simp: ownUndone_def list_ex_iff)
    with c True show ?thesis by simp
  next
    case False
    have s2: "s2 = s" using redo_failed_state[OF h] .
    from h False have n: "canRedo r2 = Some False \<and>
        (undoStack s = [] \<or> latestUndoOf (undoStack s) (length (undoStack s)) v = None)"
      by (auto simp: redo_def redoFailure_def Let_def redoConflictMessage_def
               split: if_splits option.splits)
    have "\<not> ownUndone s v"
    proof (cases "undoStack s = []")
      case True
      then show ?thesis by (simp add: ownUndone_def)
    next
      case ne: False
      with n have "latestUndoOf (undoStack s) (length (undoStack s)) v = None" by simp
      from latestUndoOf_None[OF this] have "\<forall>j<length (undoStack s). userId (undoStack s ! j) \<noteq> v"
        by simp
      then show ?thesis by (auto simp: ownUndone_def list_ex_iff in_set_conv_nth)
    qed
    with n s2 False show ?thesis by simp
  qed
  from a b show ?thesis by blast
qed

section \<open>The dispatcher\<close>

text \<open>
  C7, as stated, fails: a connection that joined the default room sends a \<open>draw\<close> whose
  path is empty; the operation is appended to the room's \<open>ops\<close> and sent to the room.
\<close>

theorem draw_empty_path_is_logged:
  "validPoints \<lparr>path = Some [], color = None, width = Undefined, mode = None\<rparr> < 2 \<and>
   map path (ops (drawingState (the (rooms (fst (handleMessage
       (fst (handleMessage (connect newServer 1 ''U1'' ''#e53935'') 1 (JoinRoom None) 0))
       1 (Draw \<lparr>path = Some [], color = None, width = Undefined, mode = None\<rparr>) 5)) ''default''))))
     = [Some []] \<and>
   snd (handleMessage
       (fst (handleMessage (connect newServer 1 ''U1'' ''#e53935'') 1 (JoinRoom None) 0))
       1 (Draw \<lparr>path = Some [], color = None, width = Undefined, mode = None\<rparr>) 5)
     = [(1, OpMsg \<lparr>path = Some [], color = None, width = Undefined, mode = None,
                   userId = ''U1'', opId = 1, timestamp = 5\<rparr>)]"
  by (simp add: server_eval log_eval)

text \<open>
  C7, amended.  The server does not look at the path of a \<open>draw\<close> message.  For every
  \<open>draw\<close> from a connection bound to a room, whatever its path, the payload goes to
  \<open>addOperation\<close>: one operation carrying that path is appended to the room's \<open>ops\<close>,
  and it is sent to every open connection of the room.
\<close>

theorem draw_is_never_rejected:
  assumes "findBySocket srv c = Some r"
  shows "rooms (fst (handleMessage srv c (Draw rawop) now)) (room_id r) =
           Some (r\<lparr>drawingState :=
                     fst (addOperation (drawingState r) (ws_userId (sockets srv c), rawop) now)\<rparr>) \<and>
         ops (fst (addOperation (drawingState r) (ws_userId (sockets srv c), rawop) now)) =
           ops (drawingState r) @
           [snd (addOperation (drawingState r) (ws_userId (sockets srv c), rawop) now)] \<and>
         path (snd (addOperation (drawingState r) (ws_userId (sockets srv c), rawop) now)) =
           path rawop \<and>
         snd (handleMessage srv c (Draw rawop) now) =
           map (\<lambda>k. (k, OpMsg (snd (addOperation (drawingState r)
                                        (ws_userId (sockets srv c), rawop) now))))
               (openClients srv r)"
  using assms
  by (simp add: split_beta Let_def openClients_def addOperation_def)

theorem draw_is_never_rejected_witness:
  "findBySocket (fst (handleMessage (connect newServer 1 ''U1'' ''#e53935'') 1 (JoinRoom None) 0)) 1
     \<noteq> None \<and>
   snd (handleMessage
       (fst (handleMessage (connect newServer 1 ''U1'' ''#e53935'') 1 (JoinRoom None) 0))
       1 (Draw \<lparr>path = Some [\<lparr>p_x = Num 3, p_y = Num 4\<rparr>], color = None, width = Undefined, mode = None\<rparr>) 5)
     = [(1, OpMsg \<lparr>path = Some [\<lparr>p_x = Num 3, p_y = Num 4\<rparr>], color = None, width = Undefined, mode = None,
                   userId = ''U1'', opId = 1, timestamp = 5\<rparr>)]"
  using draw_is_never_rejected[of
      "fst (handleMessage (connect newServer 1 ''U1'' ''#e53935'') 1 (JoinRoom None) 0)" 1
      "the (findBySocket
              (fst (handleMessage (connect newServer 1 ''U1'' ''#e53935'') 1 (JoinRoom None) 0)) 1)"
      "\<lparr>path = Some [\<lparr>p_x = Num 3, p_y = Num 4\<rparr>], color = None, width = Undefined, mode = None\<rparr>" 5]
  by (simp add: server_eval log_eval)

text \<open>
  C8, as stated, fails for \<open>draw\<close>: a connection that has joined no room sends a
  \<open>draw\<close> and nothing is sent back.
\<close>

theorem unbound_draw_gets_no_reply:
  "findBySocket (connect newServer 1 ''U1'' ''#e53935'') 1 = None \<and>
   snd (handleMessage (connect newServer 1 ''U1'' ''#e53935'') 1
          (Draw (strokeRaw 0 0 10 0)) 5) = []"
  by (simp add: server_eval)

text \<open>
  C8, amended.  From a connection bound to no room, \<open>undo\<close>, \<open>redo\<close> and \<open>clear\<close> are
  each answered by one failure message \<open>Not in a room\<close> sent to that connection alone,
  and \<open>draw\<close> is dropped without any message; in all four cases the server state is
  unchanged.
\<close>

theorem unbound_mutating_messages:
  assumes "findBySocket srv c = None"
  shows "handleMessage srv c Undo now = (srv, [(c, UndoMsg notInRoom None)]) \<and>
         handleMessage srv c Redo now = (srv, [(c, RedoMsg notInRoom None)]) \<and>
         handleMessage srv c Clear now = (srv, [(c, ClearMsg False ''Not in a room'' None)]) \<and>
         handleMessage srv c (Draw rawop) now = (srv, []) \<and>
         \<not> success notInRoom \<and> message notInRoom = ''Not in a room''"
  using assms by (simp add: notInRoom_def)

theorem unbound_mutating_messages_witness:
  "handleMessage (connect newServer 1 ''U1'' ''#e53935'') 1 Undo 5 =
     (connect newServer 1 ''U1'' ''#e53935'', [(1, UndoMsg notInRoom None)]) \<and>
   handleMessage (connect newServer 1 ''U1'' ''#e53935'') 1 Clear 5 =
     (connect newServer 1 ''U1'' ''#e53935'', [(1, ClearMsg False ''Not in a room'' None)])"
  using unbound_mutating_messages[of "connect newServer 1 ''U1'' ''#e53935''" 1 5
      "strokeRaw 0 0 10 0"]
  by (simp add: findBySocket_def connect_def newServer_def)

section \<open>The conflict predicate\<close>

text \<open>
  C9, as stated: the conflict predicate would be the intersection of both bounding
  boxes, each grown by the greater stroke width.  It is not: two width-4 strokes whose
  boxes are 6 apart do not conflict for \<open>operationsOverlap\<close>, while their two grown
  boxes intersect.
\<close>

theorem operationsOverlap_not_both_expanded:
  "\<not> (operationsOverlap (stroke ''A'' 1 1 0 0 10 0) (stroke ''B'' 2 2 16 0 20 0)
        \<longleftrightarrow> specOverlap (stroke ''A'' 1 1 0 0 10 0) (stroke ''B'' 2 2 16 0 20 0))"
  by (simp add: stroke_def operationsOverlap_def specOverlap_def getPathBoundingBox_def
      widthOr4_def boxesIntersect_def expand_def bbox_def binary64_numeral)

text \<open>
  C9, amended.  For two operations whose paths have at least two points each, all with
  finite numeric coordinates, the conflict predicate holds exactly when each bounding
  box reaches the other under the padding: on neither axis is the maximum coordinate of
  one box plus the padding, added once as JavaScript numbers (the sum rounded to a
  double), less than the minimum coordinate of the other box.  The padding is the
  greater of the two stroke widths as numbers, a missing, zero or otherwise falsy width
  counting as 4.
\<close>

theorem operationsOverlap_padded_maxima:
  assumes "path op1 = Some path1" and "path op2 = Some path2"
    and "2 \<le> length path1" and "2 \<le> length path2"
    and "\<forall>pt\<in>set path1 \<union> set path2. finitePoint pt"
  shows "operationsOverlap op1 op2 \<longleftrightarrow>
         reaches (js_max (widthOr4 op1) (widthOr4 op2)) (bbox path1) (bbox path2) \<and>
         reaches (js_max (widthOr4 op1) (widthOr4 op2)) (bbox path2) (bbox path1)"
proof -
  from assms have ne: "path1 \<noteq> []" "path2 \<noteq> []" by auto
  from assms(5) have fin: "\<forall>pt\<in>set path1. finitePoint pt" "\<forall>pt\<in>set path2. finitePoint pt"
    by auto
  show ?thesis
    using assms(1-4)
    by (auto simp add: operationsOverlap_def getPathBoundingBox_bbox[OF ne(1) fin(1)]
        getPathBoundingBox_bbox[OF ne(2) fin(2)] reaches_def Let_def)
qed

theorem operationsOverlap_padded_maxima_witness:
  "operationsOverlap (stroke ''A'' 1 1 0 0 10 0) (stroke ''B'' 2 2 13 0 20 0) \<and>
   reaches (Num 4)
     (bbox [\<lparr>p_x = Num 0, p_y = Num 0\<rparr>, \<lparr>p_x = Num 10, p_y = Num 0\<rparr>])
     (bbox [\<lparr>p_x = Num 13, p_y = Num 0\<rparr>, \<lparr>p_x = Num 20, p_y = Num 0\<rparr>])"
  using operationsOverlap_padded_maxima[of "stroke ''A'' 1 1 0 0 10 0"
      "[\<lparr>p_x = Num 0, p_y = Num 0\<rparr>, \<lparr>p_x = Num 10, p_y = Num 0\<rparr>]"
      "stroke ''B'' 2 2 13 0 20 0"
      "[\<lparr>p_x = Num 13, p_y = Num 0\<rparr>, \<lparr>p_x = Num 20, p_y = Num 0\<rparr>]"]
  by (simp add: stroke_def widthOr4_def reaches_def bbox_def finitePoint_def binary64_numeral)

text \<open>
  When the padding is a finite number and the four sums are exact, this is the
  intersection of one bounding box, grown on every side by the padding, with the other
  as it is.
\<close>

lemma operationsOverlap_exact_sums:
  assumes "path op1 = Some path1" and "path op2 = Some path2"
    and "2 \<le> length path1" and "2 \<le> length path2"
    and "\<forall>pt\<in>set path1 \<union> set path2. finitePoint pt"
    and "js_max (widthOr4 op1) (widthOr4 op2) = Num p"
    and "binary64 (hi_x (bbox path1) + p) = Num (hi_x (bbox path1) + p)"
    and "binary64 (hi_y (bbox path1) + p) = Num (hi_y (bbox path1) + p)"
    and "binary64 (hi_x (bbox path2) + p) = Num (hi_x (bbox path2) + p)"
    and "binary64 (hi_y (bbox path2) + p) = Num (hi_y (bbox path2) + p)"
  shows "operationsOverlap op1 op2 \<longleftrightarrow> boxesIntersect (expand p (bbox path1)) (bbox path2)"
proof -
  from assms have ne: "path1 \<noteq> []" "path2 \<noteq> []" by auto
  from assms(5) have fin: "\<forall>pt\<in>set path1. finitePoint pt" "\<forall>pt\<in>set path2. finitePoint pt"
    by auto
  show ?thesis
    using assms(1-4,6-10)
    by (simp add: operationsOverlap_def getPathBoundingBox_bbox[OF ne(1) fin(1)]
        getPathBoundingBox_bbox[OF ne(2) fin(2)] boxesIntersect_def expand_def Let_def)
       linarith
qed

text \<open>
  Where a sum is rounded the two differ.  A stroke of width 1 ending at \<open>2 ^ 53 + 2\<close>
  and one beginning at \<open>2 ^ 53 + 4\<close>: the sum \<open>(2 ^ 53 + 2) + 1\<close> is the double
  \<open>2 ^ 53 + 4\<close>, which is not less than the other minimum, so the predicate holds,
  while the first box grown by 1 ends at \<open>2 ^ 53 + 3\<close> and does not meet the second.
\<close>

lemma operationsOverlap_rounded_sum:
  "operationsOverlap
     \<lparr>path = Some [\<lparr>p_x = Num 0, p_y = Num 0\<rparr>, \<lparr>p_x = Num 9007199254740994, p_y = Num 0\<rparr>],
      color = None, width = NumberValue (Num 1), mode = None,
      userId = ''A'', opId = 1, timestamp = 1\<rparr>
     \<lparr>path = Some [\<lparr>p_x = Num 9007199254740996, p_y = Num 0\<rparr>,
                   \<lparr>p_x = Num 9007199254740996, p_y = Num 0\<rparr>],
      color = None, width = NumberValue (Num 1), mode = None,
      userId = ''B'', opId = 2, timestamp = 2\<rparr> \<and>
   \<not> boxesIntersect
       (expand 1 (bbox [\<lparr>p_x = Num 0, p_y = Num 0\<rparr>, \<lparr>p_x = Num 9007199254740994, p_y = Num 0\<rparr>]))
       (bbox [\<lparr>p_x = Num 9007199254740996, p_y = Num 0\<rparr>,
              \<lparr>p_x = Num 9007199254740996, p_y = Num 0\<rparr>])"
  by (simp add: operationsOverlap_def getPathBoundingBox_def widthOr4_def boxesIntersect_def
      expand_def bbox_def binary64_1 binary64_2_pow_53_plus_3 binary64_2_pow_53_plus_5)

text \<open>
  A coordinate that does not convert to a number makes the box edges of its axis \<open>NaN\<close>,
  every comparison on that axis false, and the predicate true for strokes 1000 apart.
\<close>

lemma operationsOverlap_NaN_coordinate:
  "operationsOverlap
     \<lparr>path = Some [\<lparr>p_x = NaN, p_y = Num 0\<rparr>, \<lparr>p_x = Num 1, p_y = Num 0\<rparr>],
      color = None, width = NumberValue (Num 4), mode = None,
      userId = ''A'', opId = 1, timestamp = 1\<rparr>
     (stroke ''B'' 2 2 1000 0 1010 0)"
  by (simp add: stroke_def operationsOverlap_def getPathBoundingBox_def widthOr4_def
      binary64_numeral)

text \<open>
  C10.  An operation whose path is missing or shorter than two points overlaps nothing.
  So when the requester's candidate for \<open>redo\<close> is such an operation, or when every
  operation of \<open>ops\<close> newer than the candidate is, \<open>redo\<close> does not fail with the
  conflict: it succeeds.
\<close>

theorem degenerate_never_conflicts:
  "(degenerate op1 \<or> degenerate op2 \<longrightarrow> \<not> operationsOverlap op1 op2) \<and>
   (latestUndoOf (undoStack s) (length (undoStack s)) u = Some cand \<and>
      (degenerate cand \<or>
       (\<forall>e\<in>set (ops s). timestamp cand < timestamp e \<longrightarrow> degenerate e))
    \<longrightarrow> message (snd (redo s u)) \<noteq> redoConflictMessage \<and> success (snd (redo s u)))"
proof -
  have a: "degenerate x \<or> degenerate y \<Longrightarrow> \<not> operationsOverlap x y" for x y
    by (auto simp: degenerate_def operationsOverlap_def split: option.splits)
  have b: "message (snd (redo s u)) \<noteq> redoConflictMessage \<and> success (snd (redo s u))"
    if c: "latestUndoOf (undoStack s) (length (undoStack s)) u = Some cand"
      and d: "degenerate cand \<or>
              (\<forall>e\<in>set (ops s). timestamp cand < timestamp e \<longrightarrow> degenerate e)"
  proof -
    from c have ne: "undoStack s \<noteq> []" by (cases "undoStack s") auto
    have "\<not> list_ex (\<lambda>existingOp. timestamp existingOp > timestamp cand \<and>
                                   operationsOverlap existingOp cand) (ops s)"
      using d a by (auto simp: list_ex_iff)
    with c ne show ?thesis
      by (simp add: redo_def Let_def redoConflictMessage_def)
  qed
  from a b show ?thesis by blast
qed

text \<open>
  A one-point stroke of B drawn after A's stroke and on top of it does not block A's
  \<open>redo\<close>.
\<close>

theorem degenerate_never_conflicts_witness:
  "degenerate \<lparr>path = Some [\<lparr>p_x = Num 5, p_y = Num 0\<rparr>], color = None, width = Undefined, mode = None,
              userId = ''B'', opId = 2, timestamp = 2\<rparr> \<and>
   \<not> operationsOverlap
       \<lparr>path = Some [\<lparr>p_x = Num 5, p_y = Num 0\<rparr>], color = None, width = Undefined, mode = None,
        userId = ''B'', opId = 2, timestamp = 2\<rparr>
       (stroke ''A'' 1 1 0 0 10 0) \<and>
   success (snd (redo (run [AddOperation ''A'' (strokeRaw 0 0 10 0) 1,
                            AddOperation ''B'' \<lparr>path = Some [\<lparr>p_x = Num 5, p_y = Num 0\<rparr>],
                                color = None, width = Undefined, mode = None\<rparr> 2,
                            UndoCall ''A'']) ''A''))"
  using degenerate_never_conflicts[of
      "\<lparr>path = Some [\<lparr>p_x = Num 5, p_y = Num 0\<rparr>], color = None, width = Undefined, mode = None,
        userId = ''B'', opId = 2, timestamp = 2\<rparr>"
      "stroke ''A'' 1 1 0 0 10 0"
      "run [AddOperation ''A'' (strokeRaw 0 0 10 0) 1,
            AddOperation ''B'' \<lparr>path = Some [\<lparr>p_x = Num 5, p_y = Num 0\<rparr>],
                color = None, width = Undefined, mode = None\<rparr> 2,
            UndoCall ''A'']"
      "''A''" "stroke ''A'' 1 1 0 0 10 0"]
  by (simp add: log_eval degenerate_def)

end
